theory Spec2Isabelle
  imports Complex_Main "HOL-Library.Word" "HOL-Library.AList"
begin

unbundle bit_operations_syntax

section \<open>SLIP-0039 in TypeScript: a model of \<open>utils.ts\<close>, \<open>slip39_helper.ts\<close> and \<open>slip39.ts\<close>\<close>

text \<open>
  Numbers of the source that count, index or pack bits are natural numbers (every
  quantity stays below \<open>2^31\<close> on the inputs considered, so the 32-bit operators of
  JavaScript are exact); a quantity that can go below zero is an \<open>int\<close>. The elements of
  a secret, a share or a digest are bytes. A \<open>Map\<close> is an association list in insertion
  order, \<open>Map.set\<close> being \<open>AList.update\<close>. A \<open>throw\<close> is the left injection of a sum.
\<close>

type_synonym byte = "8 word"

datatype error =
    EmptyMnemonics              \<comment> \<open>"The list of mnemonics is empty."\<close>
  | InsufficientGroups          \<comment> \<open>"Insufficient number of mnemonic groups ..."\<close>
  | WrongGroupNumber            \<comment> \<open>"Wrong number of mnemonic groups. ..."\<close>
  | WrongMnemonicNumber         \<comment> \<open>"Wrong number of mnemonics. ..."\<close>
  | InvalidWord                 \<comment> \<open>"Invalid mnemonic word ..."\<close>
  | InvalidMnemonicLength       \<comment> \<open>"Invalid mnemonic length. The length of each mnemonic must be at least ..."\<close>
  | InvalidLengthResidual       \<comment> \<open>"Invalid mnemonic length."\<close>
  | InvalidChecksum             \<comment> \<open>"Invalid mnemonic checksum"\<close>
  | GroupThresholdAboveCount    \<comment> \<open>"... Group threshold (..) cannot be greater than group count (..)."\<close>
  | InvalidPadding              \<comment> \<open>"Invalid mnemonic padding (..)"\<close>
  | EncodeBigIntTooLong         \<comment> \<open>"Error in encoding BigInt value, ..."\<close>
  | MemberThresholdMismatch     \<comment> \<open>"... All mnemonics in a group must have the same member threshold."\<close>
  | PrefixMismatch              \<comment> \<open>"... All mnemonics must begin with the same .. words."\<close>
  | GroupThresholdMismatch      \<comment> \<open>"... All mnemonics must have the same group threshold."\<close>
  | GroupCountMismatch          \<comment> \<open>"... All mnemonics must have the same group count."\<close>
  | ShareLengthMismatch         \<comment> \<open>"Invalid set of shares. All share values must have the same length."\<close>
  | InvalidDigest               \<comment> \<open>"Invalid digest of the shared secret."\<close>
  | XorLengthMismatch           \<comment> \<open>"Invalid padding in mnemonic or insufficient length of mnemonics (..)"\<close>
  | InvalidIterationExponent    \<comment> \<open>"Invalid iteration exponent (..). Expected between 0 and .."\<close>
  | ThresholdNotPositive        \<comment> \<open>"The requested threshold (..) must be a positive integer."\<close>
  | ThresholdAboveShareCount    \<comment> \<open>"The requested threshold (..) must not exceed the number of shares (..)."\<close>
  | ShareCountTooLarge          \<comment> \<open>"The requested number of shares (..) must not exceed .."\<close>
  | SecretTooShort              \<comment> \<open>"The length of the master secret (.. bytes) must be at least .. bytes."\<close>
  | SecretOddLength             \<comment> \<open>"The length of the master secret in bytes must be an even number."\<close>
  | InvalidPassphrase           \<comment> \<open>"The passphrase must contain only printable ASCII characters ..."\<close>
  | GroupThresholdAboveGroups   \<comment> \<open>"The requested group threshold (..) must not exceed the number of groups (..)."\<close>
  | ThresholdOneManyMembers     \<comment> \<open>"Creating multiple member shares with member threshold 1 is not allowed. ..."\<close>
  | MissingIdentifier           \<comment> \<open>"Missing required parameter identifier"\<close>
  | MissingGroupCount           \<comment> \<open>"Missing required parameter groupCount"\<close>
  | MissingGroupThreshold       \<comment> \<open>"Missing required parameter groupThreshold"\<close>
  | UndefinedValue              \<comment> \<open>the value \<open>undefined\<close> where a list is expected\<close>
  | InvalidArrayLength          \<comment> \<open>the RangeError of \<open>new Uint8Array\<close> at a negative length\<close>
  | CannotConvertToBigInt       \<comment> \<open>the SyntaxError of \<open>BigInt\<close> at a function or an object\<close>

subsection \<open>What the sources import and do not define\<close>

text \<open>
  \<open>constants.ts\<close> and the \<open>uncrypto\<close> package are not among the sources. The two word
  counts below, the word list and the two cryptographic primitives are parameters of the
  model; the other constants are modelled from the specification.
\<close>

record platform =
  ITERATION_EXP_WORDS_LENGTH :: nat
  METADATA_WORDS_LENGTH :: nat
  WORD_LIST :: "string list"
  pbkdf2 :: "byte list \<Rightarrow> byte list \<Rightarrow> nat \<Rightarrow> nat \<Rightarrow> byte list"
    \<comment> \<open>\<open>deriveBits\<close> of PBKDF2 with SHA-256: password, salt, iterations, number of bits\<close>
  hmac_sha256 :: "byte list \<Rightarrow> byte list \<Rightarrow> byte list"
    \<comment> \<open>\<open>sign\<close> of HMAC with SHA-256: key, message\<close>

text \<open>Modelled from the spec: the constants of \<open>constants.ts\<close> (section 6, "Constants").\<close>

definition RADIX_BITS :: nat where "RADIX_BITS = 10"
definition ID_BITS_LENGTH :: nat where "ID_BITS_LENGTH = 15"
definition ITERATION_EXP_BITS_LENGTH :: nat where "ITERATION_EXP_BITS_LENGTH = 4"
definition EXTENDABLE_BACKUP_FLAG_BITS_LENGTH :: nat where "EXTENDABLE_BACKUP_FLAG_BITS_LENGTH = 1"
definition CHECKSUM_WORDS_LENGTH :: nat where "CHECKSUM_WORDS_LENGTH = 3"
definition MIN_ENTROPY_BITS :: nat where "MIN_ENTROPY_BITS = 128"
definition MAX_SHARE_COUNT :: nat where "MAX_SHARE_COUNT = 16"
definition MAX_ITERATION_EXP :: nat where "MAX_ITERATION_EXP = 16"
definition ITERATION_COUNT :: nat where "ITERATION_COUNT = 10000"
definition ROUND_COUNT :: nat where "ROUND_COUNT = 4"
definition DIGEST_LENGTH :: nat where "DIGEST_LENGTH = 4"
definition DIGEST_INDEX :: nat where "DIGEST_INDEX = 254"
definition SECRET_INDEX :: nat where "SECRET_INDEX = 255"
definition MNEMONICS_WORDS_LENGTH :: nat where "MNEMONICS_WORDS_LENGTH = 20"
definition CUSTOMIZATION_STRING_NON_EXTENDABLE :: string where
  "CUSTOMIZATION_STRING_NON_EXTENDABLE = ''shamir''"
definition CUSTOMIZATION_STRING_EXTENDABLE :: string where
  "CUSTOMIZATION_STRING_EXTENDABLE = ''shamir_extendable''"

text \<open>
  Modelled from the spec: the tables of GF(256) (section 4.1), with generator 3 and the
  polynomial \<open>x^8 + x^4 + x^3 + x + 1\<close>: \<open>EXP[i]\<close> is the \<open>i\<close>-th power of the generator,
  \<open>LOG\<close> is its inverse. The logarithm of 0 does not exist; its entry holds 0, as in the
  tables of SLIP-0039, and \<open>interpolate\<close> reads it at \<open>k XOR k\<close>.
\<close>

definition times3 :: "byte \<Rightarrow> byte" where
  "times3 a = (push_bit 1 a XOR (if bit a 7 then 27 else 0)) XOR a"

definition EXP_TABLE :: "byte list" where
  "EXP_TABLE = map (\<lambda>i. (times3 ^^ i) 1) [0..<255]"

fun position :: "'a \<Rightarrow> 'a list \<Rightarrow> nat" where
  "position x [] = 0"
| "position x (y # ys) = (if x = y then 0 else Suc (position x ys))"

definition LOG_TABLE :: "nat list" where
  "LOG_TABLE = map (\<lambda>n. if n = 0 then 0 else position (of_nat n) EXP_TABLE) [0..<256]"

subsection \<open>\<open>utils.ts\<close>\<close>

definition generateArray :: "nat \<Rightarrow> (nat \<Rightarrow> 'a) \<Rightarrow> 'a list" where
  \<comment> \<open>\<open>generateArray([], n, v)\<close>: every call of the sources starts from an empty array\<close>
  "generateArray n v = map v [0..<n]"

definition encodeHexString :: "string \<Rightarrow> nat list" where
  "encodeHexString s = map of_char s"

definition bitsToBytes :: "int \<Rightarrow> int" where
  "bitsToBytes n = (n + 7) div 8"

definition bitsToWords :: "nat \<Rightarrow> nat" where
  "bitsToWords n = (n + RADIX_BITS - 1) div RADIX_BITS"

type_synonym rng = "nat \<Rightarrow> byte"

definition randomBytes :: "nat \<Rightarrow> rng \<Rightarrow> byte list \<times> rng" where
  \<comment> \<open>the generator is a tape of bytes; a call reads the next \<open>n\<close> of them\<close>
  "randomBytes n g = (map g [0..<n], \<lambda>i. g (i + n))"

definition listsAreEqual :: "'a list \<Rightarrow> 'a list \<Rightarrow> bool" where
  "listsAreEqual a b = (length a = length b \<and> list_all2 (=) a b)"

definition decodeBigInt :: "byte list \<Rightarrow> nat" where
  "decodeBigInt bytes =
     (\<Sum>i\<leftarrow>[0..<length bytes]. push_bit (8 * i) (unat (bytes ! (length bytes - i - 1))))"

function encodeBigInt_loop :: "nat \<Rightarrow> byte list \<Rightarrow> byte list" where
  "encodeBigInt_loop number result =
     (if number > 0 then encodeBigInt_loop (drop_bit 8 number) (of_nat (number AND 255) # result)
      else result)"
  by pat_completeness auto
termination
  by (relation "measure fst") (auto simp: drop_bit_eq_div intro: div_less_dividend)

definition encodeBigInt :: "nat \<Rightarrow> int \<Rightarrow> error + byte list" where
  "encodeBigInt number paddedLength =
     (let result = encodeBigInt_loop number [];
          result = replicate (nat (paddedLength - int (length result))) 0 @ result
      in if paddedLength \<noteq> 0 \<and> int (length result) > paddedLength
         then Inl EncodeBigIntTooLong else Inr result)"

subsection \<open>Strings of JavaScript\<close>

definition js_rem :: "int \<Rightarrow> int \<Rightarrow> int" where
  \<comment> \<open>the operator \<open>%\<close> for a positive divisor: the sign of the result is that of the dividend\<close>
  "js_rem a b = (if a < 0 then - ((- a) mod b) else a mod b)"

definition js_slice :: "nat \<Rightarrow> nat \<Rightarrow> 'a list \<Rightarrow> 'a list" where
  \<comment> \<open>\<open>xs.slice(a, b)\<close> for indices that are not negative\<close>
  "js_slice a b xs = take (b - a) (drop a xs)"

definition toLowerCase_char :: "char \<Rightarrow> char" where
  \<comment> \<open>a character is a code unit below 256: the capital letters of ASCII and of Latin-1 move by 32\<close>
  "toLowerCase_char c =
     (let n = (of_char c :: nat)
      in if (65 \<le> n \<and> n \<le> 90) \<or> (192 \<le> n \<and> n \<le> 222 \<and> n \<noteq> 215) then char_of (n + 32) else c)"

definition toLowerCase :: "string \<Rightarrow> string" where
  "toLowerCase s = map toLowerCase_char s"

fun split :: "char \<Rightarrow> string \<Rightarrow> string list" where
  "split sep [] = [[]]"
| "split sep (c # cs) =
     (if c = sep then [] # split sep cs
      else (case split sep cs of w # ws \<Rightarrow> (c # w) # ws | [] \<Rightarrow> [[c]]))"

fun join :: "char \<Rightarrow> string list \<Rightarrow> string" where
  "join sep [] = []"
| "join sep [w] = w"
| "join sep (w # ws) = w @ sep # join sep ws"

subsection \<open>The RS1024 checksum\<close>

definition GEN :: "nat list" where
  "GEN = [0xe0e040, 0x1c1c080, 0x3838100, 0x7070200, 0xe0e0009, 0x1c0c2412,
          0x38086c24, 0x3090fc48, 0x21b1f890, 0x3f3f120]"

definition rs1024Polymod_step :: "nat \<Rightarrow> nat \<Rightarrow> nat" where
  \<comment> \<open>the body of the \<open>forEach\<close>: \<open>byte\<close> is the element, \<open>chk\<close> the checksum so far\<close>
  "rs1024Polymod_step byte chk =
     (let b = drop_bit 20 chk;
          chk = push_bit 10 (chk AND 0xfffff) XOR byte
      in fold (\<lambda>i chk. chk XOR (if (drop_bit i b) AND 1 \<noteq> 0 then GEN ! i else 0)) [0..<10] chk)"

definition rs1024Polymod :: "nat list \<Rightarrow> nat" where
  "rs1024Polymod data = fold rs1024Polymod_step data 1"

definition get_customization_string :: "nat \<Rightarrow> string" where
  "get_customization_string extendableBackupFlag =
     (if extendableBackupFlag \<noteq> 0 then CUSTOMIZATION_STRING_EXTENDABLE
      else CUSTOMIZATION_STRING_NON_EXTENDABLE)"

definition rs1024CreateChecksum :: "nat list \<Rightarrow> nat \<Rightarrow> nat list" where
  "rs1024CreateChecksum data extendableBackupFlag =
     (let values = encodeHexString (get_customization_string extendableBackupFlag) @ data
                     @ generateArray CHECKSUM_WORDS_LENGTH (\<lambda>_. 0);
          polymod = rs1024Polymod values XOR 1
      in rev (generateArray CHECKSUM_WORDS_LENGTH (\<lambda>i. drop_bit (10 * i) polymod AND 1023)))"

definition rs1024VerifyChecksum :: "nat list \<Rightarrow> nat \<Rightarrow> bool" where
  "rs1024VerifyChecksum data extendableBackupFlag =
     (rs1024Polymod (encodeHexString (get_customization_string extendableBackupFlag) @ data) = 1)"

subsection \<open>Words and indices\<close>

text \<open>
  Modelled from the spec: \<open>WORD_LIST_MAP\<close> of \<open>constants.ts\<close>, the index of each word of
  the word list (section 4.6: a mnemonic is read as a sequence of indices into the list).
  \<open>mnemonicToIndices\<close> reads it as \<open>WORD_LIST_MAP[item]\<close> and tests the result against
  \<open>undefined\<close>: a property read of an object whose keys are the words. Such a read also
  finds the properties that every object inherits from \<open>Object.prototype\<close>, and their
  values are functions and objects, not numbers. So what the read returns, and what the
  list that \<open>mnemonicToIndices\<close> builds holds, is a number or such an inherited value.
\<close>

datatype js_index =
    Index nat     \<comment> \<open>a number: the index of a word of the list\<close>
  | Inherited     \<comment> \<open>the function or object found under a name of \<open>Object.prototype\<close>\<close>

definition Object_prototype :: "string list" where
  \<comment> \<open>the names of the properties of \<open>Object.prototype\<close>\<close>
  "Object_prototype =
     [''constructor'', ''__defineGetter__'', ''__defineSetter__'', ''hasOwnProperty'',
      ''__lookupGetter__'', ''__lookupSetter__'', ''isPrototypeOf'', ''propertyIsEnumerable'',
      ''toString'', ''valueOf'', ''__proto__'', ''toLocaleString'']"

definition WORD_LIST_MAP :: "platform \<Rightarrow> string \<rightharpoonup> js_index" where
  \<comment> \<open>\<open>WORD_LIST_MAP[item]\<close>, \<open>None\<close> being \<open>undefined\<close>: an own property hides an inherited one\<close>
  "WORD_LIST_MAP p item =
     (case map_of (zip (WORD_LIST p) [0..<length (WORD_LIST p)]) item of
        Some i \<Rightarrow> Some (Index i)
      | None \<Rightarrow> if item \<in> set Object_prototype then Some Inherited else None)"

fun BigInt :: "js_index \<Rightarrow> error + nat" where
  \<comment> \<open>\<open>BigInt(index)\<close>: a function or an object is first turned into a string, which is not
      the text of an integer\<close>
  "BigInt (Index i) = Inr i"
| "BigInt Inherited = Inl CannotConvertToBigInt"

fun ToInt32 :: "js_index \<Rightarrow> nat" where
  \<comment> \<open>the operand that \<open>^\<close> computes with: a function or an object is first turned into the
      number \<open>NaN\<close>, and that into 0\<close>
  "ToInt32 (Index i) = i"
| "ToInt32 Inherited = 0"

definition intFromIndices :: "js_index list \<Rightarrow> error + nat" where
  "intFromIndices indices =
     fold (\<lambda>index val. case val of Inl e \<Rightarrow> Inl e | Inr v \<Rightarrow>
             (case BigInt index of Inl e \<Rightarrow> Inl e | Inr i \<Rightarrow> Inr (v * 2 ^ RADIX_BITS + i)))
          indices (Inr 0)"

definition intToIndices :: "nat \<Rightarrow> nat \<Rightarrow> nat \<Rightarrow> nat list" where
  "intToIndices val len bits =
     rev (generateArray len (\<lambda>i. drop_bit (i * bits) val AND (push_bit bits 1 - 1)))"

definition word_at :: "platform \<Rightarrow> nat \<Rightarrow> string" where
  \<comment> \<open>\<open>WORD_LIST[index]\<close> as \<open>toString\<close> prints it: \<open>undefined\<close> is printed as the empty string\<close>
  "word_at p index = (if index < length (WORD_LIST p) then WORD_LIST p ! index else [])"

definition mnemonicFromIndices :: "platform \<Rightarrow> nat list \<Rightarrow> string" where
  "mnemonicFromIndices p indices =
     join (CHR '' '') (split (CHR '','') (join (CHR '','') (map (word_at p) indices)))"

fun lookup_words :: "platform \<Rightarrow> string list \<Rightarrow> error + js_index list" where
  \<comment> \<open>the \<open>reduce\<close> of \<open>mnemonicToIndices\<close>: it throws at the first word whose read gives
      \<open>undefined\<close>, and appends whatever else the read gives\<close>
  "lookup_words p [] = Inr []"
| "lookup_words p (item # items) =
     (case WORD_LIST_MAP p item of
        None \<Rightarrow> Inl InvalidWord
      | Some index \<Rightarrow> (case lookup_words p items of Inl e \<Rightarrow> Inl e | Inr rest \<Rightarrow> Inr (index # rest)))"

definition mnemonicToIndices :: "platform \<Rightarrow> string \<Rightarrow> error + js_index list" where
  "mnemonicToIndices p mnemonic = lookup_words p (split (CHR '' '') (toLowerCase mnemonic))"

subsection \<open>One mnemonic\<close>

record decoded_mnemonic =
  "identifier" :: nat
  extendableBackupFlag :: nat
  iterationExponent :: nat
  groupIndex :: nat
  groupThreshold :: nat
  groupCount :: nat
  memberIndex :: nat
  memberThreshold :: nat
  share :: "byte list"

definition decodeMnemonic :: "platform \<Rightarrow> string \<Rightarrow> error + decoded_mnemonic" where
  \<comment> \<open>the elements of \<open>data\<close> reach \<open>BigInt\<close> in \<open>intFromIndices\<close> and \<open>^\<close> in \<open>rs1024Polymod\<close>\<close>
  "decodeMnemonic p mnemonic =
     (case mnemonicToIndices p mnemonic of Inl e \<Rightarrow> Inl e | Inr data \<Rightarrow>
      if length data < MNEMONICS_WORDS_LENGTH then Inl InvalidMnemonicLength
      else let paddingLen = js_rem (int RADIX_BITS * (int (length data) - int (METADATA_WORDS_LENGTH p))) 16
      in if paddingLen > 8 then Inl InvalidLengthResidual
      else (case intFromIndices (js_slice 0 (ITERATION_EXP_WORDS_LENGTH p) data) of
              Inl e \<Rightarrow> Inl e | Inr idExpExtInt \<Rightarrow>
      let ident = drop_bit (ITERATION_EXP_BITS_LENGTH + EXTENDABLE_BACKUP_FLAG_BITS_LENGTH) idExpExtInt;
          flag = drop_bit ITERATION_EXP_BITS_LENGTH idExpExtInt
                   AND (push_bit EXTENDABLE_BACKUP_FLAG_BITS_LENGTH 1 - 1);
          iexp = idExpExtInt AND (push_bit ITERATION_EXP_BITS_LENGTH 1 - 1)
      in if \<not> rs1024VerifyChecksum (map ToInt32 data) flag then Inl InvalidChecksum
      else (case intFromIndices (js_slice (ITERATION_EXP_WORDS_LENGTH p)
                                         (ITERATION_EXP_WORDS_LENGTH p + 2) data) of
              Inl e \<Rightarrow> Inl e | Inr tmp \<Rightarrow>
      let indices = intToIndices tmp 5 4;
          gIndex = indices ! 0;
          gThreshold = indices ! 1;
          gCount = indices ! 2;
          mIndex = indices ! 3;
          mThreshold = indices ! 4;
          valueData = js_slice (ITERATION_EXP_WORDS_LENGTH p + 2)
                            (length data - CHECKSUM_WORDS_LENGTH) data
      in if gCount < gThreshold then Inl GroupThresholdAboveCount
      else (case intFromIndices valueData of Inl e \<Rightarrow> Inl e | Inr valueInt \<Rightarrow>
      let valueByteCount = bitsToBytes (int RADIX_BITS * int (length valueData) - paddingLen)
      in (case encodeBigInt valueInt valueByteCount of
            Inl e \<Rightarrow> Inl InvalidPadding
          | Inr sh \<Rightarrow> Inr \<lparr> identifier = ident, extendableBackupFlag = flag,
                           iterationExponent = iexp, groupIndex = gIndex,
                           groupThreshold = gThreshold + 1, groupCount = gCount + 1,
                           memberIndex = mIndex, memberThreshold = mThreshold + 1,
                           share = sh \<rparr>)))))"

definition validateMnemonic :: "platform \<Rightarrow> string \<Rightarrow> bool" where
  "validateMnemonic p mnemonic = (case decodeMnemonic p mnemonic of Inl e \<Rightarrow> False | Inr d \<Rightarrow> True)"

definition groupPrefix :: "platform \<Rightarrow> nat \<Rightarrow> nat \<Rightarrow> nat \<Rightarrow> nat \<Rightarrow> nat \<Rightarrow> nat \<Rightarrow> nat list" where
  "groupPrefix p ident flag iexp gIndex gThreshold gCount =
     (let idExpInt = push_bit (ITERATION_EXP_BITS_LENGTH + EXTENDABLE_BACKUP_FLAG_BITS_LENGTH) ident
                       + push_bit ITERATION_EXP_BITS_LENGTH flag + iexp;
          indc = intToIndices idExpInt (ITERATION_EXP_WORDS_LENGTH p) RADIX_BITS;
          indc2 = nat (int (push_bit 6 gIndex) + push_bit 2 (int gThreshold - 1)
                       + drop_bit 2 (int gCount - 1))
      in indc @ [indc2])"

definition encodeMnemonic ::
  "platform \<Rightarrow> byte list \<Rightarrow> nat \<Rightarrow> nat \<Rightarrow> nat \<Rightarrow> nat \<Rightarrow> nat \<Rightarrow> nat \<Rightarrow> nat \<Rightarrow> byte list \<Rightarrow> string" where
  "encodeMnemonic p ident flag iexp gIndex gThreshold gCount mIndex mThreshold val =
     (let valueWordCount = bitsToWords (length val * 8);
          valueInt = decodeBigInt val;
          newIdentifier = decodeBigInt ident;
          gp = groupPrefix p newIdentifier flag iexp gIndex gThreshold gCount;
          tp = intToIndices valueInt valueWordCount RADIX_BITS;
          calc = nat (push_bit 8 ((int gCount - 1) AND 3) + int (push_bit 4 mIndex)
                      + (int mThreshold - 1));
          gp = gp @ [calc];
          shareData = gp @ tp;
          checksum = rs1024CreateChecksum shareData flag
      in mnemonicFromIndices p (shareData @ checksum))"

subsection \<open>The Feistel cipher\<close>

definition roundFunction ::
  "platform \<Rightarrow> nat \<Rightarrow> nat list \<Rightarrow> nat \<Rightarrow> byte list \<Rightarrow> byte list \<Rightarrow> byte list" where
  "roundFunction p rnd passphrase iexp salt secret =
     (let saltedSecret = salt @ secret;
          roundedPhrase = rnd # passphrase;
          iterations = (push_bit iexp ITERATION_COUNT) div ROUND_COUNT
      in pbkdf2 p (map of_nat roundedPhrase) saltedSecret iterations (length secret * 8))"

definition xor_arr :: "byte list \<Rightarrow> byte list \<Rightarrow> error + byte list" where
  "xor_arr a b =
     (if length a \<noteq> length b then Inl XorLengthMismatch
      else Inr (generateArray (length a) (\<lambda>i. a ! i XOR b ! i)))"

definition getSalt :: "byte list \<Rightarrow> nat \<Rightarrow> byte list" where
  "getSalt ident flag =
     (if flag \<noteq> 0 then []
      else map of_nat (encodeHexString CUSTOMIZATION_STRING_NON_EXTENDABLE) @ ident)"

fun crypt_rounds ::
  "platform \<Rightarrow> nat list \<Rightarrow> nat list \<Rightarrow> nat \<Rightarrow> byte list \<Rightarrow> byte list \<Rightarrow> byte list
     \<Rightarrow> error + byte list" where
  \<comment> \<open>the \<open>for\<close> loop of \<open>crypt\<close> over the rounds that are left, from the halves \<open>IL\<close> and \<open>IR\<close>\<close>
  "crypt_rounds p [] pwd iexp salt IL IR = Inr (IR @ IL)"
| "crypt_rounds p (rnd # rest) pwd iexp salt IL IR =
     (let f = roundFunction p rnd pwd iexp salt IR
      in case xor_arr IL f of
           Inl e \<Rightarrow> Inl e
         | Inr t \<Rightarrow> crypt_rounds p rest pwd iexp salt IR t)"

definition crypt ::
  "platform \<Rightarrow> byte list \<Rightarrow> string \<Rightarrow> nat \<Rightarrow> byte list \<Rightarrow> nat \<Rightarrow> bool \<Rightarrow> error + byte list" where
  "crypt p masterSecret passphrase iexp ident flag encrypt =
     (if iexp > MAX_ITERATION_EXP then Inl InvalidIterationExponent
      else let IL = js_slice 0 (length masterSecret div 2) masterSecret;
               IR = drop (length masterSecret div 2) masterSecret;
               pwd = encodeHexString passphrase;
               salt = getSalt ident flag;
               rounds = generateArray ROUND_COUNT (\<lambda>i. i);
               rounds = (if encrypt then rounds else rev rounds)
           in crypt_rounds p rounds pwd iexp salt IL IR)"

subsection \<open>Shamir's scheme over GF(256)\<close>

definition createDigest :: "platform \<Rightarrow> byte list \<Rightarrow> byte list \<Rightarrow> byte list" where
  "createDigest p randomData sharedSecret = js_slice 0 4 (hmac_sha256 p randomData sharedSecret)"

definition LOG_at :: "nat \<Rightarrow> int option" where
  \<comment> \<open>\<open>LOG_TABLE[n]\<close>; outside the table the value is \<open>undefined\<close>, and sums with it are \<open>NaN\<close>\<close>
  "LOG_at n = (if n < length LOG_TABLE then Some (int (LOG_TABLE ! n)) else None)"

fun log_sum :: "nat list \<Rightarrow> int option" where
  "log_sum [] = Some 0"
| "log_sum (n # ns) =
     (case (LOG_at n, log_sum ns) of (Some a, Some b) \<Rightarrow> Some (a + b) | _ \<Rightarrow> None)"

definition logBasisEval :: "nat list \<Rightarrow> nat \<Rightarrow> nat \<Rightarrow> int option" where
  \<comment> \<open>the logarithm of the Lagrange basis polynomial of the key \<open>k\<close> at \<open>x\<close>; \<open>None\<close> is \<open>NaN\<close>\<close>
  "logBasisEval keys x k =
     (case (log_sum (map (\<lambda>kk. kk XOR x) keys), LOG_at (k XOR x), log_sum (map (\<lambda>kk. k XOR kk) keys)) of
        (Some logProd, Some l, Some logSum) \<Rightarrow>
          (let basis = js_rem (logProd - l - logSum) 255
           in Some (if basis < 0 then 255 + basis else basis))
      | _ \<Rightarrow> None)"

definition scale_byte :: "int option \<Rightarrow> byte \<Rightarrow> byte" where
  \<comment> \<open>the value \<open>r\<close> of the inner loop; \<open>EXP_TABLE[NaN]\<close> is \<open>undefined\<close>, which \<open>^\<close> reads as 0\<close>
  "scale_byte lbe shareVal =
     (if shareVal \<noteq> 0
      then (case lbe of
              Some e \<Rightarrow> EXP_TABLE ! (nat ((int (LOG_TABLE ! unat shareVal) + e) mod 255))
            | None \<Rightarrow> 0)
      else 0)"

definition interpolate :: "(nat \<times> byte list) list \<Rightarrow> nat \<Rightarrow> error + byte list" where
  "interpolate shares x =
     (let xCoord = map fst shares;
          sharesValueLengths = remdups (map (\<lambda>(k, v). length v) shares)
      in if length sharesValueLengths \<noteq> 1 then Inl ShareLengthMismatch
         else if x \<in> set xCoord \<and> (\<exists>k \<in> set xCoord. k \<noteq> x) then Inl ShareLengthMismatch
         else Inr (fold (\<lambda>(k, v) results.
                           map2 (\<lambda>item intermediateSum.
                                   intermediateSum XOR scale_byte (logBasisEval xCoord x k) item)
                                v results)
                        shares (replicate (hd sharesValueLengths) 0)))"

fun randomShares :: "nat \<Rightarrow> nat \<Rightarrow> rng \<Rightarrow> byte list list \<times> rng" where
  \<comment> \<open>\<open>generateArray([], n, () => randomBytes(len))\<close>\<close>
  "randomShares 0 len g = ([], g)"
| "randomShares (Suc n) len g =
     (let (item, g) = randomBytes len g; (items, g) = randomShares n len g in (item # items, g))"

fun interpolate_all :: "(nat \<times> byte list) list \<Rightarrow> nat list \<Rightarrow> error + byte list list" where
  \<comment> \<open>the last loop of \<open>splitSecret\<close>, over the indices \<open>i\<close> that are left\<close>
  "interpolate_all baseShares [] = Inr []"
| "interpolate_all baseShares (i # is) =
     (case interpolate baseShares i of
        Inl e \<Rightarrow> Inl e
      | Inr rr \<Rightarrow> (case interpolate_all baseShares is of Inl e \<Rightarrow> Inl e | Inr rest \<Rightarrow> Inr (rr # rest)))"

fun set_all :: "nat \<Rightarrow> byte list list \<Rightarrow> (nat \<times> byte list) list \<Rightarrow> (nat \<times> byte list) list" where
  \<comment> \<open>\<open>shares.forEach((item, idx) => baseShares.set(idx, item))\<close>, from the index \<open>idx\<close> on\<close>
  "set_all idx [] baseShares = baseShares"
| "set_all idx (item # items) baseShares = set_all (Suc idx) items (AList.update idx item baseShares)"

definition splitSecret ::
  "platform \<Rightarrow> nat \<Rightarrow> nat \<Rightarrow> byte list \<Rightarrow> rng \<Rightarrow> error + (byte list list \<times> rng)" where
  "splitSecret p threshold shareCount sharedSecret g =
     (if threshold \<le> 0 then Inl ThresholdNotPositive
      else if threshold > shareCount then Inl ThresholdAboveShareCount
      else if shareCount > MAX_SHARE_COUNT then Inl ShareCountTooLarge
      else if threshold = 1 then Inr (generateArray shareCount (\<lambda>_. sharedSecret), g)
      else if length sharedSecret < DIGEST_LENGTH then Inl InvalidArrayLength
      else let randomShareCount = threshold - 2;
               (randomPart, g) = randomBytes (length sharedSecret - DIGEST_LENGTH) g;
               digest = createDigest p randomPart sharedSecret;
               (shares, g) = (if randomShareCount \<noteq> 0
                              then randomShares randomShareCount (length sharedSecret) g
                              else ([], g));
               baseShares = set_all 0 shares [];
               baseShares = AList.update DIGEST_INDEX (digest @ randomPart) baseShares;
               baseShares = AList.update SECRET_INDEX sharedSecret baseShares
           in case interpolate_all baseShares [randomShareCount..<shareCount] of
                Inl e \<Rightarrow> Inl e
              | Inr rest \<Rightarrow> Inr (shares @ rest, g))"

definition generateIdentifier :: "rng \<Rightarrow> byte list \<times> rng" where
  "generateIdentifier g =
     (let byte = nat (bitsToBytes (int ID_BITS_LENGTH));
          bits = ID_BITS_LENGTH mod 8;
          (ident, g) = randomBytes byte g
      in (ident[0 := ident ! 0 AND (push_bit bits 1 - 1)], g))"

definition recoverSecret :: "platform \<Rightarrow> nat \<Rightarrow> (nat \<times> byte list) list \<Rightarrow> error + byte list" where
  \<comment> \<open>at threshold 1 and an empty map the source returns \<open>undefined\<close>; no caller passes one\<close>
  "recoverSecret p threshold shares =
     (if threshold = 1 then (case shares of [] \<Rightarrow> Inl UndefinedValue | (k, v) # _ \<Rightarrow> Inr v)
      else (case interpolate shares SECRET_INDEX of Inl e \<Rightarrow> Inl e | Inr sharedSecret \<Rightarrow>
           (case interpolate shares DIGEST_INDEX of Inl e \<Rightarrow> Inl e | Inr digestShare \<Rightarrow>
           (let digest = js_slice 0 DIGEST_LENGTH digestShare;
                randomPart = drop DIGEST_LENGTH digestShare;
                recoveredDigest = createDigest p randomPart sharedSecret
            in if \<not> listsAreEqual digest recoveredDigest then Inl InvalidDigest
               else Inr sharedSecret))))"

subsection \<open>A set of mnemonics\<close>

definition set_add :: "'a \<Rightarrow> 'a list \<Rightarrow> 'a list" where
  \<comment> \<open>\<open>Set.add\<close>: a set is the list of its elements in insertion order\<close>
  "set_add x xs = (if x \<in> set xs then xs else xs @ [x])"

type_synonym share_map = "(nat \<times> byte list) list"
type_synonym group_map = "(nat \<times> (nat \<times> share_map) list) list"

record decoded_mnemonics =
  identifiers :: "nat list"
  extendableBackupFlags :: "nat list"
  iterationExponents :: "nat list"
  groupThresholds :: "nat list"
  groupCounts :: "nat list"
  groups :: group_map

definition decodeMnemonics_step :: "platform \<Rightarrow> string \<Rightarrow> decoded_mnemonics \<Rightarrow> error + decoded_mnemonics" where
  \<comment> \<open>the body of the \<open>forEach\<close> of \<open>decodeMnemonics\<close>, on the sets and the map built so far\<close>
  "decodeMnemonics_step p mnemonic st =
     (case decodeMnemonic p mnemonic of Inl e \<Rightarrow> Inl e | Inr decoded \<Rightarrow>
      (let grp = (case map_of (groups st) (groupIndex decoded) of None \<Rightarrow> [] | Some grp \<Rightarrow> grp);
           member = (case map_of grp (memberThreshold decoded) of None \<Rightarrow> [] | Some member \<Rightarrow> member);
           member = AList.update (memberIndex decoded) (share decoded) member;
           grp = AList.update (memberThreshold decoded) member grp
       in if length grp \<noteq> 1 then Inl MemberThresholdMismatch
          else Inr \<lparr> identifiers = set_add (identifier decoded) (identifiers st),
                     extendableBackupFlags = set_add (extendableBackupFlag decoded) (extendableBackupFlags st),
                     iterationExponents = set_add (iterationExponent decoded) (iterationExponents st),
                     groupThresholds = set_add (groupThreshold decoded) (groupThresholds st),
                     groupCounts = set_add (groupCount decoded) (groupCounts st),
                     groups = AList.update (groupIndex decoded) grp (groups st) \<rparr>))"

fun decodeMnemonics_loop :: "platform \<Rightarrow> string list \<Rightarrow> decoded_mnemonics \<Rightarrow> error + decoded_mnemonics" where
  "decodeMnemonics_loop p [] st = Inr st"
| "decodeMnemonics_loop p (mnemonic # rest) st =
     (case decodeMnemonics_step p mnemonic st of
        Inl e \<Rightarrow> Inl e
      | Inr st' \<Rightarrow> decodeMnemonics_loop p rest st')"

definition decodeMnemonics :: "platform \<Rightarrow> string list \<Rightarrow> error + decoded_mnemonics" where
  \<comment> \<open>the result keeps the five sets, each of one element; the source returns that element\<close>
  "decodeMnemonics p mnemonics =
     (case decodeMnemonics_loop p mnemonics
             \<lparr> identifiers = [], extendableBackupFlags = [], iterationExponents = [],
               groupThresholds = [], groupCounts = [], groups = [] \<rparr> of
        Inl e \<Rightarrow> Inl e
      | Inr st \<Rightarrow>
          if length (identifiers st) \<noteq> 1 \<or> length (extendableBackupFlags st) \<noteq> 1
             \<or> length (iterationExponents st) \<noteq> 1 then Inl PrefixMismatch
          else if length (groupThresholds st) \<noteq> 1 then Inl GroupThresholdMismatch
          else if length (groupCounts st) \<noteq> 1 then Inl GroupCountMismatch
          else Inr st)"

fun recover_groups :: "platform \<Rightarrow> group_map \<Rightarrow> share_map \<Rightarrow> error + share_map" where
  \<comment> \<open>the \<open>for\<close> loop of \<open>combineMnemonics\<close> over the entries of \<open>groups\<close> that are left\<close>
  "recover_groups p [] allShares = Inr allShares"
| "recover_groups p ((gIndex, members) # rest) allShares =
     (case members of
        [] \<Rightarrow> Inl UndefinedValue
      | (threshold, shares) # _ \<Rightarrow>
          if length shares \<noteq> threshold then Inl WrongMnemonicNumber
          else (case recoverSecret p threshold shares of
                  Inl e \<Rightarrow> Inl e
                | Inr recovered \<Rightarrow> recover_groups p rest (AList.update gIndex recovered allShares)))"

definition combineMnemonics :: "platform \<Rightarrow> string list \<Rightarrow> string \<Rightarrow> error + byte list" where
  "combineMnemonics p mnemonics passphrase =
     (if length mnemonics = 0 then Inl EmptyMnemonics
      else (case decodeMnemonics p mnemonics of Inl e \<Rightarrow> Inl e | Inr decoded \<Rightarrow>
        (let ident = hd (identifiers decoded);
             flag = hd (extendableBackupFlags decoded);
             iexp = hd (iterationExponents decoded);
             gThreshold = hd (groupThresholds decoded);
             grps = groups decoded
         in if length grps < gThreshold then Inl InsufficientGroups
            else if length grps \<noteq> gThreshold then Inl WrongGroupNumber
            else (case recover_groups p grps [] of Inl e \<Rightarrow> Inl e | Inr allShares \<Rightarrow>
              (case recoverSecret p gThreshold allShares of Inl e \<Rightarrow> Inl e | Inr ems \<Rightarrow>
                (let id = intToIndices ident (ITERATION_EXP_WORDS_LENGTH p) 8
                 in crypt p ems passphrase iexp (map of_nat id) flag False))))))"

subsection \<open>\<open>slip39.ts\<close>: building the tree of shares\<close>

datatype Slip39Node = Slip39Node (index: nat) (mnemonic: string) (children: "Slip39Node list")

fun mnemonics :: "Slip39Node \<Rightarrow> string list" where
  "mnemonics (Slip39Node i m cs) = (if length cs = 0 then [m] else concat (map mnemonics cs))"

record Slip39 =
  slip_extendableBackupFlag :: nat
  slip_groupCount :: nat
  slip_groupThreshold :: nat
  slip_identifier :: "byte list"
  slip_iterationExponent :: nat
  root :: Slip39Node

definition new_Slip39 :: "nat \<Rightarrow> nat \<Rightarrow> byte list \<Rightarrow> nat \<Rightarrow> nat \<Rightarrow> error + Slip39" where
  \<comment> \<open>the constructor\<close>
  "new_Slip39 iexp flag ident gCount gThreshold =
     (if length ident = 0 then Inl MissingIdentifier
      else if gCount = 0 then Inl MissingGroupCount
      else if gThreshold = 0 then Inl MissingGroupThreshold
      else Inr \<lparr> slip_extendableBackupFlag = flag, slip_groupCount = gCount,
                 slip_groupThreshold = gThreshold, slip_identifier = ident,
                 slip_iterationExponent = iexp, root = Slip39Node 0 [] [] \<rparr>)"

definition depth :: "(nat \<times> nat) list \<Rightarrow> nat" where
  \<comment> \<open>how deep \<open>buildRecursive\<close> goes below a list of nodes: members are built with 0 members\<close>
  "depth nodes = (if nodes = [] then 0 else if \<forall>item \<in> set nodes. snd item = 0 then 1 else 2)"

function buildRecursive ::
    "platform \<Rightarrow> Slip39 \<Rightarrow> nat \<Rightarrow> (nat \<times> nat) list \<Rightarrow> byte list \<Rightarrow> nat \<Rightarrow> nat \<Rightarrow> rng
       \<Rightarrow> error + (Slip39Node \<times> rng)"
  and buildChildren ::
    "platform \<Rightarrow> Slip39 \<Rightarrow> nat \<Rightarrow> (nat \<times> nat) list \<Rightarrow> byte list list \<Rightarrow> nat \<Rightarrow> rng
       \<Rightarrow> error + (Slip39Node list \<times> rng)"
where
  "buildRecursive p slip cur nodes secret threshold idx g =
     (if length nodes = 0
      then Inr (Slip39Node cur
                  (encodeMnemonic p (slip_identifier slip) (slip_extendableBackupFlag slip)
                     (slip_iterationExponent slip) idx (slip_groupThreshold slip)
                     (slip_groupCount slip) cur threshold secret) [], g)
      else (case splitSecret p threshold (length nodes) secret g of
              Inl e \<Rightarrow> Inl e
            | Inr (secretShares, g) \<Rightarrow>
                (case buildChildren p slip cur nodes secretShares 0 g of
                   Inl e \<Rightarrow> Inl e
                 | Inr (cs, g) \<Rightarrow> Inr (Slip39Node cur [] cs, g))))"
| "buildChildren p slip cur [] secretShares idx g = Inr ([], g)"
| "buildChildren p slip cur ((n, m) # items) secretShares idx g =
     (let members = generateArray m (\<lambda>_. (n, 0 :: nat))
      in case buildRecursive p slip idx members (secretShares ! idx) n cur g of
           Inl e \<Rightarrow> Inl e
         | Inr (branch, g) \<Rightarrow>
             (case buildChildren p slip cur items secretShares (idx + 1) g of
                Inl e \<Rightarrow> Inl e
              | Inr (cs, g) \<Rightarrow> Inr (branch # cs, g)))"
  by pat_completeness auto
termination
  by (relation "inv_image (less_than <*lex*> less_than <*lex*> less_than)
        (\<lambda>x. case x of
           Inl (p, slip, cur, nodes, secret, threshold, idx, g) \<Rightarrow> (depth nodes, 1 :: nat, length nodes)
         | Inr (p, slip, cur, nodes, secretShares, idx, g) \<Rightarrow> (depth nodes, 0, length nodes))")
     (auto simp: depth_def generateArray_def split: if_splits)

definition fromArray ::
  "platform \<Rightarrow> byte list \<Rightarrow> nat \<Rightarrow> (nat \<times> nat) list \<Rightarrow> nat \<Rightarrow> byte list \<Rightarrow> string \<Rightarrow> nat \<Rightarrow> rng
     \<Rightarrow> error + (Slip39 \<times> rng)" where
  \<comment> \<open>the options in the order of the source; a group is its threshold and its number of members\<close>
  "fromArray p masterSecret flag grps iexp ident passphrase gThreshold g =
     (if length masterSecret * 8 < MIN_ENTROPY_BITS then Inl SecretTooShort
      else if length masterSecret mod 2 \<noteq> 0 then Inl SecretOddLength
      else if \<not> list_all (\<lambda>c. 32 \<le> (of_char c :: nat) \<and> (of_char c :: nat) \<le> 126) passphrase
        then Inl InvalidPassphrase
      else if gThreshold > length grps then Inl GroupThresholdAboveGroups
      else if \<exists>item \<in> set grps. fst item = 1 \<and> snd item > 1 then Inl ThresholdOneManyMembers
      else (case new_Slip39 iexp flag ident (length grps) gThreshold of Inl e \<Rightarrow> Inl e | Inr slip \<Rightarrow>
        (case crypt p masterSecret passphrase iexp (slip_identifier slip) flag True of
           Inl e \<Rightarrow> Inl e
         | Inr encryptedMasterSecret \<Rightarrow>
             (case buildRecursive p slip 0 grps encryptedMasterSecret gThreshold 0 g of
                Inl e \<Rightarrow> Inl e
              | Inr (node, g) \<Rightarrow> Inr (slip\<lparr> root := node \<rparr>, g)))))"

definition fromArray_default :: "platform \<Rightarrow> byte list \<Rightarrow> rng \<Rightarrow> error + (Slip39 \<times> rng)" where
  \<comment> \<open>\<open>Slip39.fromArray(masterSecret)\<close>: every option at its default\<close>
  "fromArray_default p masterSecret g =
     (let (ident, g) = generateIdentifier g
      in fromArray p masterSecret 1 [(1, 1)] 0 ident [] 1 g)"

subsection \<open>A platform to run the model on\<close>

text \<open>
  A word list of 1024 three-letter words and two stand-ins for the primitives: they return
  the number of bytes that PBKDF2 is asked for and the 32 bytes of a SHA-256 signature.
\<close>

definition toy_word :: "nat \<Rightarrow> string" where
  "toy_word i = [char_of (97 + i div 64), char_of (97 + (i div 8) mod 8), char_of (97 + i mod 8)]"

definition toy_pbkdf2 :: "byte list \<Rightarrow> byte list \<Rightarrow> nat \<Rightarrow> nat \<Rightarrow> byte list" where
  "toy_pbkdf2 pw salt iterations bits =
     map (\<lambda>i. of_nat (7 * i + iterations) + fold (+) (pw @ salt) 0) [0..<bits div 8]"

definition toy_hmac :: "byte list \<Rightarrow> byte list \<Rightarrow> byte list" where
  "toy_hmac key msg = map (\<lambda>i. of_nat (3 * i) + fold (+) (key @ msg) 1) [0..<32]"

definition toy_platform :: platform where
  "toy_platform = \<lparr> ITERATION_EXP_WORDS_LENGTH = 2, METADATA_WORDS_LENGTH = 7,
                     WORD_LIST = map toy_word [0..<1024],
                     pbkdf2 = toy_pbkdf2, hmac_sha256 = toy_hmac \<rparr>"


subsection \<open>Auxiliary notions for the proofs\<close>

definition gen_of :: "nat \<Rightarrow> nat" where
  \<comment> \<open>what the inner loop of \<open>rs1024Polymod\<close> adds for the ten bits of \<open>b\<close>\<close>
  "gen_of b = fold (\<lambda>i chk. chk XOR (if (drop_bit i b) AND 1 \<noteq> 0 then GEN ! i else 0)) [0..<10] 0"

definition advance :: "nat \<Rightarrow> nat" where
  \<comment> \<open>one step of \<open>rs1024Polymod\<close> on the element 0\<close>
  "advance chk = push_bit 10 (take_bit 20 chk) XOR gen_of (drop_bit 20 chk)"

definition customization_bytes :: "nat \<Rightarrow> nat list" where
  \<comment> \<open>section 4.3 of the specification: the ASCII bytes of "shamir" at flag 0, of
      "shamir_extendable" at flag 1\<close>
  "customization_bytes flag =
     (if flag = 0 then [115, 104, 97, 109, 105, 114]
      else [115, 104, 97, 109, 105, 114, 95, 101, 120, 116, 101, 110, 100, 97, 98, 108, 101])"

definition wf_platform :: "platform \<Rightarrow> bool" where
  \<comment> \<open>what the proofs ask of the parameters: the two word counts fit the layout of a mnemonic (two or
      three words for identifier and exponent, two for the group data, three for the checksum),
      and the word list has 1024 distinct lower-case words without a space or a comma\<close>
  "wf_platform p \<longleftrightarrow>
     2 \<le> ITERATION_EXP_WORDS_LENGTH p \<and> ITERATION_EXP_WORDS_LENGTH p \<le> 3
     \<and> METADATA_WORDS_LENGTH p = ITERATION_EXP_WORDS_LENGTH p + 2 + CHECKSUM_WORDS_LENGTH
     \<and> length (WORD_LIST p) = 1024 \<and> distinct (WORD_LIST p)
     \<and> (\<forall>w \<in> set (WORD_LIST p). CHR '' '' \<notin> set w \<and> CHR '','' \<notin> set w \<and> toLowerCase w = w)"

fun be_bytes :: "nat \<Rightarrow> nat \<Rightarrow> byte list" where
  \<comment> \<open>the big-endian bytes of a number, at a given length\<close>
  "be_bytes 0 n = []"
| "be_bytes (Suc L) n = be_bytes L (n div 256) @ [of_nat n]"

definition indices_value :: "nat list \<Rightarrow> nat" where
  \<comment> \<open>what \<open>intFromIndices\<close> returns for a list of numbers\<close>
  "indices_value indices = fold (\<lambda>index val. val * 2 ^ RADIX_BITS + index) indices 0"

definition decode_indices :: "platform \<Rightarrow> nat list \<Rightarrow> error + decoded_mnemonic" where
  \<comment> \<open>\<open>decodeMnemonic\<close> from its second statement on, for a list \<open>data\<close> of numbers\<close>
  "decode_indices p data =
     (if length data < MNEMONICS_WORDS_LENGTH then Inl InvalidMnemonicLength
      else let paddingLen = js_rem (int RADIX_BITS * (int (length data) - int (METADATA_WORDS_LENGTH p))) 16
      in if paddingLen > 8 then Inl InvalidLengthResidual
      else let idExpExtInt = indices_value (js_slice 0 (ITERATION_EXP_WORDS_LENGTH p) data);
               ident = drop_bit (ITERATION_EXP_BITS_LENGTH + EXTENDABLE_BACKUP_FLAG_BITS_LENGTH) idExpExtInt;
               flag = drop_bit ITERATION_EXP_BITS_LENGTH idExpExtInt
                        AND (push_bit EXTENDABLE_BACKUP_FLAG_BITS_LENGTH 1 - 1);
               iexp = idExpExtInt AND (push_bit ITERATION_EXP_BITS_LENGTH 1 - 1)
      in if \<not> rs1024VerifyChecksum data flag then Inl InvalidChecksum
      else let tmp = indices_value (js_slice (ITERATION_EXP_WORDS_LENGTH p)
                                          (ITERATION_EXP_WORDS_LENGTH p + 2) data);
               indices = intToIndices tmp 5 4;
               gIndex = indices ! 0;
               gThreshold = indices ! 1;
               gCount = indices ! 2;
               mIndex = indices ! 3;
               mThreshold = indices ! 4;
               valueData = js_slice (ITERATION_EXP_WORDS_LENGTH p + 2)
                                 (length data - CHECKSUM_WORDS_LENGTH) data
      in if gCount < gThreshold then Inl GroupThresholdAboveCount
      else let valueInt = indices_value valueData;
               valueByteCount = bitsToBytes (int RADIX_BITS * int (length valueData) - paddingLen)
      in (case encodeBigInt valueInt valueByteCount of
            Inl e \<Rightarrow> Inl InvalidPadding
          | Inr sh \<Rightarrow> Inr \<lparr> identifier = ident, extendableBackupFlag = flag,
                           iterationExponent = iexp, groupIndex = gIndex,
                           groupThreshold = gThreshold + 1, groupCount = gCount + 1,
                           memberIndex = mIndex, memberThreshold = mThreshold + 1,
                           share = sh \<rparr>))"

definition encode_indices ::
  "platform \<Rightarrow> byte list \<Rightarrow> nat \<Rightarrow> nat \<Rightarrow> nat \<Rightarrow> nat \<Rightarrow> nat \<Rightarrow> nat \<Rightarrow> nat \<Rightarrow> byte list \<Rightarrow> nat list" where
  \<comment> \<open>the indices that \<open>encodeMnemonic\<close> hands to \<open>mnemonicFromIndices\<close>\<close>
  "encode_indices p ident flag iexp gIndex gThreshold gCount mIndex mThreshold val =
     (let shareData = groupPrefix p (decodeBigInt ident) flag iexp gIndex gThreshold gCount
                        @ [nat (push_bit 8 ((int gCount - 1) AND 3) + int (push_bit 4 mIndex)
                                + (int mThreshold - 1))]
                        @ intToIndices (decodeBigInt val) (bitsToWords (length val * 8)) RADIX_BITS
      in shareData @ rs1024CreateChecksum shareData flag)"

definition wf_crypto :: "platform \<Rightarrow> bool" where
  \<comment> \<open>what the proofs ask of the two primitives: PBKDF2 returns the number of bytes it is asked
      for, and a SHA-256 signature has 32 bytes\<close>
  "wf_crypto p \<longleftrightarrow>
     (\<forall>pw salt iterations bits. length (pbkdf2 p pw salt iterations bits) = bits div 8)
     \<and> (\<forall>key msg. length (hmac_sha256 p key msg) = 32)"

definition group_after :: "decoded_mnemonics \<Rightarrow> decoded_mnemonic \<Rightarrow> (nat \<times> share_map) list" where
  \<comment> \<open>the map \<open>group\<close> of \<open>decodeMnemonics\<close> after the two \<open>set\<close> calls for a decoded mnemonic\<close>
  "group_after st d =
     (let grp = (case map_of (groups st) (groupIndex d) of None \<Rightarrow> [] | Some grp \<Rightarrow> grp);
          member = (case map_of grp (memberThreshold d) of None \<Rightarrow> [] | Some member \<Rightarrow> member)
      in AList.update (memberThreshold d) (AList.update (memberIndex d) (share d) member) grp)"

definition entry_ok :: "decoded_mnemonic list \<Rightarrow> nat \<Rightarrow> (nat \<times> share_map) list \<Rightarrow> bool" where
  \<comment> \<open>the entry of the group \<open>g\<close> in \<open>groups\<close>, against the mnemonics decoded so far: one member
      threshold, that of all of them in the group, and one share for each of their member indices\<close>
  "entry_ok ds g grp \<longleftrightarrow>
     (\<exists>t mem. grp = [(t, mem)] \<and> distinct (map fst mem)
        \<and> fst ` set mem = memberIndex ` {d \<in> set ds. groupIndex d = g}
        \<and> (\<forall>d \<in> set ds. groupIndex d = g \<longrightarrow> memberThreshold d = t))"

definition groups_inv :: "decoded_mnemonic list \<Rightarrow> decoded_mnemonics \<Rightarrow> bool" where
  \<comment> \<open>the invariant of the \<open>forEach\<close> of \<open>decodeMnemonics\<close>\<close>
  "groups_inv ds st \<longleftrightarrow>
     distinct (map fst (groups st)) \<and> fst ` set (groups st) = groupIndex ` set ds
     \<and> (\<forall>e \<in> set (groups st). entry_ok ds (fst e) (snd e))
     \<and> set (groupThresholds st) = groupThreshold ` set ds \<and> distinct (groupThresholds st)"

section \<open>Properties\<close>

subsection \<open>The empty list of mnemonics\<close>

text \<open>
  C9: \<open>combineMnemonics\<close> called with an empty list of mnemonics throws "The list of
  mnemonics is empty.", whatever the passphrase, the word list and the primitives are:
  nothing is decoded or decrypted on the way.
\<close>

theorem combineMnemonics_empty:
  "combineMnemonics p [] passphrase = Inl EmptyMnemonics"
  by (simp add: combineMnemonics_def)

subsection \<open>Interpolation at an abscissa that is a key\<close>

lemma interpolate_key_throws:
  assumes "x \<in> fst ` set shares" and "k \<in> fst ` set shares" and "k \<noteq> x"
  shows "interpolate shares x = Inl ShareLengthMismatch"
  using assms by (auto simp: interpolate_def Let_def)

text \<open>
  C2: with two shares of one common length, at the keys 0 and 1, \<open>interpolate\<close> at the
  abscissa 0 does not return the value stored under 0: it throws. The \<open>return v\<close> of the
  source leaves the callback of \<open>forEach\<close> only, and the callback throws at every other key.
\<close>

theorem interpolate_existing_key_two_shares:
  "interpolate [(0, [1]), (1, [2])] 0 = Inl ShareLengthMismatch"
  by (rule interpolate_key_throws [where k = 1]) simp_all

subsection \<open>The RS1024 checksum\<close>

lemma fold_xor_acc:
  "fold (\<lambda>i chk. chk XOR f i) xs (c :: nat) = c XOR fold (\<lambda>i chk. chk XOR f i) xs 0"
proof (induction xs arbitrary: c)
  case Nil then show ?case by simp
next
  case (Cons x xs)
  show ?case
    by (simp add: Cons.IH [of "c XOR f x"] Cons.IH [of "f x"] xor.assoc)
qed

lemma xor_less_pow2:
  fixes a b :: nat
  assumes "a < 2 ^ n" "b < 2 ^ n" shows "a XOR b < 2 ^ n"
proof -
  have "take_bit n (a XOR b) = a XOR b"
    using assms by (simp add: take_bit_xor take_bit_nat_eq_self)
  then show ?thesis
    by (metis take_bit_nat_less_exp)
qed

lemma fold_xor_less:
  assumes "\<And>i. i \<in> set xs \<Longrightarrow> f i < (2::nat) ^ n" "c < 2 ^ n"
  shows "fold (\<lambda>i chk. chk XOR f i) xs c < 2 ^ n"
  using assms by (induction xs arbitrary: c) (auto intro: xor_less_pow2)

lemma GEN_less: "i < 10 \<Longrightarrow> GEN ! i < 2 ^ 30"
proof -
  have "list_all (\<lambda>g. g < 2 ^ 30) GEN" by (simp add: GEN_def)
  moreover have "length GEN = 10" by (simp add: GEN_def)
  ultimately show "i < 10 \<Longrightarrow> GEN ! i < 2 ^ 30"
    by (simp add: list_all_length)
qed

lemma gen_of_less: "gen_of b < 2 ^ 30"
  unfolding gen_of_def
proof (rule fold_xor_less)
  fix i assume "i \<in> set [0..<10]"
  then have "GEN ! i < 2 ^ 30" by (intro GEN_less) simp
  then show "(if drop_bit i b AND 1 \<noteq> 0 then GEN ! i else 0) < 2 ^ 30" by simp
qed simp

lemma rs1024Polymod_step_eq: "rs1024Polymod_step byte chk = advance chk XOR byte"
proof -
  have m: "chk AND 0xfffff = take_bit 20 chk"
    by (simp add: take_bit_eq_mask mask_eq_exp_minus_1)
  show ?thesis
    unfolding rs1024Polymod_step_def Let_def m advance_def gen_of_def
    by (subst fold_xor_acc) (simp add: xor.assoc xor.commute xor.left_commute)
qed

lemma advance_less: "advance chk < 2 ^ 30"
proof -
  have "push_bit 10 (take_bit 20 chk) < (2::nat) ^ 30"
    using take_bit_nat_less_exp [of 20 chk] by (simp add: push_bit_eq_mult)
  then show ?thesis
    unfolding advance_def by (intro xor_less_pow2 gen_of_less)
qed

lemma advance_xor:
  assumes "w < 2 ^ 20"
  shows "advance (x XOR w) = advance x XOR push_bit 10 w"
proof -
  have "drop_bit 20 w = 0" using assms by (simp add: drop_bit_eq_div)
  moreover have "take_bit 20 w = w" using assms by (simp add: take_bit_nat_eq_self)
  ultimately show ?thesis
    by (simp add: advance_def drop_bit_xor take_bit_xor push_bit_xor xor.assoc xor.commute xor.left_commute)
qed

lemma advance3:
  assumes "a < 2 ^ 10" "b < 2 ^ 10" "c < 2 ^ 10"
  shows "rs1024Polymod_step c (rs1024Polymod_step b (rs1024Polymod_step a s))
         = advance (advance (advance s)) XOR (push_bit 20 a XOR push_bit 10 b XOR c)"
proof -
  have a20: "a < 2 ^ 20" using assms(1) by (rule less_trans) simp
  have "push_bit 10 a < (2::nat) ^ 20" using assms(1) by (simp add: push_bit_eq_mult)
  moreover have "b < 2 ^ 20" using assms(2) by (rule less_trans) simp
  ultimately have y: "push_bit 10 a XOR b < 2 ^ 20" by (rule xor_less_pow2)
  have "rs1024Polymod_step b (rs1024Polymod_step a s) = advance (advance s) XOR (push_bit 10 a XOR b)"
    by (simp add: rs1024Polymod_step_eq advance_xor [OF a20] xor.assoc)
  then show ?thesis
    by (simp add: rs1024Polymod_step_eq advance_xor [OF y] push_bit_xor xor.assoc)
qed

lemma recombine30:
  fixes P :: nat
  assumes "P < 2 ^ 30"
  shows "push_bit 20 (drop_bit 20 P AND 1023) XOR push_bit 10 (drop_bit 10 P AND 1023) XOR (P AND 1023) = P"
proof -
  have m: "\<And>x::nat. x AND 1023 = take_bit 10 x"
    by (simp add: take_bit_eq_mask mask_eq_exp_minus_1)
  have "take_bit 30 P = P" using assms by (simp add: take_bit_nat_eq_self)
  then have b: "\<And>n. bit P n \<Longrightarrow> n < 30"
    by (metis bit_take_bit_iff)
  show ?thesis
    unfolding m
    by (rule bit_eqI) (auto simp: bit_xor_iff bit_push_bit_iff bit_take_bit_iff bit_drop_bit_eq dest: b)
qed

lemma polymod_append: "rs1024Polymod (xs @ ys) = fold rs1024Polymod_step ys (rs1024Polymod xs)"
  by (simp add: rs1024Polymod_def)

lemma checksum_verifies: "rs1024VerifyChecksum (data @ rs1024CreateChecksum data flag) flag"
proof -
  define pre where "pre = encodeHexString (get_customization_string flag) @ data"
  define s where "s = rs1024Polymod pre"
  define P where "P = advance (advance (advance s)) XOR 1"
  have P0: "rs1024Polymod (pre @ [0, 0, 0]) = advance (advance (advance s))"
    by (simp add: polymod_append s_def rs1024Polymod_step_eq)
  have "advance (advance (advance s)) < 2 ^ 30" by (rule advance_less)
  then have Pl: "P < 2 ^ 30" unfolding P_def by (rule xor_less_pow2) simp
  have cs: "rs1024CreateChecksum data flag = [drop_bit 20 P AND 1023, drop_bit 10 P AND 1023, P AND 1023]"
    using P0 by (simp add: rs1024CreateChecksum_def pre_def P_def CHECKSUM_WORDS_LENGTH_def
        generateArray_def Let_def upt_rec [of _ "numeral n" for n] upt_rec [of _ "Suc n" for n])
  have lt: "x AND 1023 < 2 ^ 10" for x :: nat
  proof -
    have "x AND 1023 = take_bit 10 x" by (simp add: take_bit_eq_mask mask_eq_exp_minus_1)
    then show ?thesis by (simp only: take_bit_nat_less_exp)
  qed
  have "rs1024Polymod (pre @ rs1024CreateChecksum data flag) =
        rs1024Polymod_step (P AND 1023) (rs1024Polymod_step (drop_bit 10 P AND 1023)
          (rs1024Polymod_step (drop_bit 20 P AND 1023) s))"
    unfolding cs polymod_append s_def [symmetric] by simp
  also have "\<dots> = advance (advance (advance s)) XOR
        (push_bit 20 (drop_bit 20 P AND 1023) XOR push_bit 10 (drop_bit 10 P AND 1023) XOR (P AND 1023))"
    by (rule advance3 [OF lt lt lt])
  also have "\<dots> = advance (advance (advance s)) XOR P"
    by (simp only: recombine30 [OF Pl])
  also have "\<dots> = 1" by (simp add: P_def flip: xor.assoc)
  finally show ?thesis
    by (simp add: rs1024VerifyChecksum_def pre_def)
qed

lemma rs1024CreateChecksum_length: "length (rs1024CreateChecksum data flag) = 3"
  by (simp add: rs1024CreateChecksum_def generateArray_def CHECKSUM_WORDS_LENGTH_def Let_def)

lemma rs1024CreateChecksum_words: "w \<in> set (rs1024CreateChecksum data flag) \<Longrightarrow> w < 1024"
proof -
  have lt: "x AND 1023 < 1024" for x :: nat
  proof -
    have "x AND 1023 = take_bit 10 x" by (simp add: take_bit_eq_mask mask_eq_exp_minus_1)
    moreover have "take_bit 10 x < 2 ^ 10" by (simp only: take_bit_nat_less_exp)
    ultimately show ?thesis by simp
  qed
  show "w \<in> set (rs1024CreateChecksum data flag) \<Longrightarrow> w < 1024"
    by (auto simp: rs1024CreateChecksum_def generateArray_def Let_def lt)
qed

lemma customization_bytes_eq:
  "flag = 0 \<or> flag = 1 \<Longrightarrow> encodeHexString (get_customization_string flag) = customization_bytes flag"
  by (auto simp: encodeHexString_def get_customization_string_def customization_bytes_def
      CUSTOMIZATION_STRING_EXTENDABLE_def CUSTOMIZATION_STRING_NON_EXTENDABLE_def)

text \<open>
  C4: for a list of word indices and an extendable-backup flag of 0 or 1, the three
  checksum words of \<open>rs1024CreateChecksum\<close>, appended to the list, give a sequence that
  \<open>rs1024VerifyChecksum\<close> accepts; and a sequence is accepted exactly when the polymod of
  the bytes of the customization string followed by the sequence is 1.
\<close>

theorem rs1024_create_then_verify:
  assumes "\<forall>w \<in> set data. w < 1024" and "flag = 0 \<or> flag = 1"
  shows "length (rs1024CreateChecksum data flag) = 3
         \<and> rs1024VerifyChecksum (data @ rs1024CreateChecksum data flag) flag
         \<and> (\<forall>ws. rs1024VerifyChecksum ws flag \<longleftrightarrow> rs1024Polymod (customization_bytes flag @ ws) = 1)"
proof (intro conjI allI)
  show "length (rs1024CreateChecksum data flag) = 3"
    by (rule rs1024CreateChecksum_length)
  show "rs1024VerifyChecksum (data @ rs1024CreateChecksum data flag) flag"
    by (rule checksum_verifies)
  show "rs1024VerifyChecksum ws flag \<longleftrightarrow> rs1024Polymod (customization_bytes flag @ ws) = 1" for ws
    by (simp add: rs1024VerifyChecksum_def customization_bytes_eq [OF assms(2)])
qed

theorem rs1024_create_then_verify_witness:
  "length (rs1024CreateChecksum [1, 2, 1023] 1) = 3
   \<and> rs1024VerifyChecksum ([1, 2, 1023] @ rs1024CreateChecksum [1, 2, 1023] 1) 1"
proof -
  have h1: "\<forall>w \<in> set [1, 2, 1023]. w < (1024 :: nat)" by simp
  have h2: "(1 :: nat) = 0 \<or> (1 :: nat) = 1" by simp
  from rs1024_create_then_verify [OF h1 h2] show ?thesis by blast
qed

subsection \<open>Mnemonic strings and word indices\<close>

lemma split_not_Nil: "split sep s \<noteq> []"
  by (induction s) (auto split: list.splits)

lemma split_no_sep: "sep \<notin> set w \<Longrightarrow> split sep w = [w]"
  by (induction w) auto

lemma split_append_sep: "sep \<notin> set w \<Longrightarrow> split sep (w @ sep # rest) = w # split sep rest"
  by (induction w) (auto split: list.splits)

lemma split_join:
  assumes "ws \<noteq> []" "\<forall>w \<in> set ws. sep \<notin> set w"
  shows "split sep (join sep ws) = ws"
  using assms
proof (induction sep ws rule: join.induct)
  case (1 sep) then show ?case by simp
next
  case (2 sep w) then show ?case by (simp add: split_no_sep)
next
  case (3 sep w v va) then show ?case by (simp add: split_append_sep)
qed

lemma toLowerCase_join:
  assumes "toLowerCase_char sep = sep"
  shows "toLowerCase (join sep ws) = join sep (map toLowerCase ws)"
  using assms by (induction sep ws rule: join.induct) (auto simp: toLowerCase_def)

lemma toLowerCase_space: "toLowerCase_char (CHR '' '') = CHR '' ''"
  by (simp add: toLowerCase_char_def)

lemma WORD_LIST_MAP_nth:
  assumes "distinct (WORD_LIST p)" "i < length (WORD_LIST p)"
  shows "WORD_LIST_MAP p (WORD_LIST p ! i) = Some (Index i)"
  using assms map_of_zip_nth [of "WORD_LIST p" "[0..<length (WORD_LIST p)]" i]
  by (simp add: WORD_LIST_MAP_def)

lemma lookup_words_nth:
  assumes "distinct (WORD_LIST p)" "\<forall>i \<in> set is. i < length (WORD_LIST p)"
  shows "lookup_words p (map (word_at p) is) = Inr (map Index is)"
  using assms by (induction "is") (auto simp: word_at_def WORD_LIST_MAP_nth)

lemma mnemonicToIndices_FromIndices:
  assumes "wf_platform p" "is \<noteq> []" "\<forall>i \<in> set is. i < 1024"
  shows "mnemonicToIndices p (mnemonicFromIndices p is) = Inr (map Index is)"
proof -
  let ?ws = "map (word_at p) is"
  have mem: "w \<in> set (WORD_LIST p)" if "w \<in> set ?ws" for w
    using that assms by (auto simp: word_at_def wf_platform_def)
  have ne: "?ws \<noteq> []" using assms(2) by simp
  have c: "split (CHR '','') (join (CHR '','') ?ws) = ?ws"
    using ne mem assms(1) by (intro split_join) (auto simp: wf_platform_def)
  have l: "map toLowerCase ?ws = ?ws"
    using mem assms(1) by (intro map_idI) (auto simp: wf_platform_def)
  have s: "split (CHR '' '') (join (CHR '' '') ?ws) = ?ws"
    using ne mem assms(1) by (intro split_join) (auto simp: wf_platform_def)
  have k: "lookup_words p ?ws = Inr (map Index is)"
    using assms by (intro lookup_words_nth) (auto simp: wf_platform_def)
  have "mnemonicFromIndices p is = join (CHR '' '') ?ws"
    by (simp only: mnemonicFromIndices_def c)
  moreover have "toLowerCase (join (CHR '' '') ?ws) = join (CHR '' '') ?ws"
    by (simp only: toLowerCase_join [OF toLowerCase_space] l)
  ultimately show ?thesis
    by (simp only: mnemonicToIndices_def s k)
qed

subsection \<open>Integers, indices and bytes\<close>

lemma fold_horner:
  "fold (\<lambda>x (v :: nat). v * B + x) xs a = a * B ^ length xs + fold (\<lambda>x v. v * B + x) xs 0"
proof (induction xs arbitrary: a)
  case Nil then show ?case by simp
next
  case (Cons x xs)
  have "fold (\<lambda>x v. v * B + x) (x # xs) a = fold (\<lambda>x v. v * B + x) xs (a * B + x)" by simp
  also have "\<dots> = (a * B + x) * B ^ length xs + fold (\<lambda>x v. v * B + x) xs 0" by (rule Cons.IH)
  also have "\<dots> = a * B ^ length (x # xs) + (x * B ^ length xs + fold (\<lambda>x v. v * B + x) xs 0)"
    by (simp add: algebra_simps)
  also have "x * B ^ length xs + fold (\<lambda>x v. v * B + x) xs 0 = fold (\<lambda>x v. v * B + x) xs (0 * B + x)"
    using Cons.IH [of "0 * B + x"] by simp
  finally show ?case by simp
qed

lemma indices_value_Cons:
  "indices_value (x # xs) = x * 1024 ^ length xs + indices_value xs"
  using fold_horner [of 1024 xs x] by (simp add: indices_value_def RADIX_BITS_def)

lemma indices_value_Nil: "indices_value [] = 0"
  by (simp add: indices_value_def)

lemma intToIndices_Suc:
  "intToIndices v (Suc n) bits = (drop_bit (n * bits) v AND (push_bit bits 1 - 1)) # intToIndices v n bits"
  by (simp add: intToIndices_def generateArray_def)

lemma intToIndices_0: "intToIndices v 0 bits = []"
  by (simp add: intToIndices_def generateArray_def)

lemma length_intToIndices: "length (intToIndices v n bits) = n"
  by (simp add: intToIndices_def generateArray_def)

lemma mask_nat: "(x :: nat) AND (push_bit b 1 - 1) = take_bit b x"
  by (simp add: take_bit_eq_mask mask_eq_exp_minus_1 push_bit_eq_mult)

lemma take_bit_split:
  "take_bit (m + n) (v :: nat) = take_bit m v + 2 ^ m * take_bit n (drop_bit m v)"
  using mod_mult2_eq [of v "2 ^ m" "2 ^ n"]
  by (simp add: take_bit_eq_mod drop_bit_eq_div power_add)

lemma indices_value_intToIndices:
  "indices_value (intToIndices v n 10) = take_bit (10 * n) v"
proof (induction n)
  case 0 then show ?case by (simp add: intToIndices_0 indices_value_Nil)
next
  case (Suc n)
  have "indices_value (intToIndices v (Suc n) 10)
        = take_bit 10 (drop_bit (n * 10) v) * 1024 ^ n + take_bit (10 * n) v"
    by (simp only: intToIndices_Suc indices_value_Cons length_intToIndices Suc mask_nat)
  also have "(1024 :: nat) ^ n = 2 ^ (10 * n)" by (simp add: power_mult)
  also have "take_bit 10 (drop_bit (n * 10) v) * 2 ^ (10 * n) + take_bit (10 * n) v
             = take_bit (10 * n + 10) v"
    using take_bit_split [of "n * 10" 10 v] by (simp add: mult.commute)
  finally show ?case by (simp add: add.commute)
qed

lemma and_1023: "(x :: nat) AND 1023 = take_bit 10 x"
  by (simp add: take_bit_eq_mask mask_eq_exp_minus_1)

lemma and_1023_less: "(x :: nat) AND 1023 < 1024"
  using take_bit_nat_less_exp [of 10 x] by (simp add: and_1023)

lemma intToIndices_less: "w \<in> set (intToIndices v n 10) \<Longrightarrow> w < 1024"
proof -
  have "take_bit 10 x < (1024 :: nat)" for x
    using take_bit_nat_less_exp [of 10 x] by simp
  then show "w \<in> set (intToIndices v n 10) \<Longrightarrow> w < 1024"
    by (auto simp: intToIndices_def generateArray_def and_1023)
qed

declare encodeBigInt_loop.simps [simp del]

lemma decodeBigInt_snoc: "decodeBigInt (bs @ [b]) = decodeBigInt bs * 256 + unat b"
proof -
  let ?n = "length bs"
  have u: "[0..<Suc ?n] = 0 # map Suc [0..<?n]"
    by (simp add: upt_conv_Cons map_Suc_upt del: upt_Suc)
  have "decodeBigInt (bs @ [b])
        = unat b + (\<Sum>i\<leftarrow>[0..<?n]. push_bit (8 * Suc i) (unat ((bs @ [b]) ! (Suc ?n - Suc i - 1))))"
    by (simp add: decodeBigInt_def u comp_def del: upt_Suc)
  also have "(\<Sum>i\<leftarrow>[0..<?n]. push_bit (8 * Suc i) (unat ((bs @ [b]) ! (Suc ?n - Suc i - 1))))
             = (\<Sum>i\<leftarrow>[0..<?n]. 256 * push_bit (8 * i) (unat (bs ! (?n - i - 1))))"
    by (rule arg_cong [where f = sum_list], rule map_cong) (auto simp: nth_append push_bit_eq_mult power_add)
  also have "\<dots> = 256 * decodeBigInt bs"
    by (simp add: decodeBigInt_def sum_list_const_mult)
  finally show ?thesis by simp
qed

lemma decodeBigInt_Nil: "decodeBigInt [] = 0"
  by (simp add: decodeBigInt_def)

lemma decodeBigInt_less: "decodeBigInt bs < 256 ^ length bs"
proof (induction bs rule: rev_induct)
  case Nil then show ?case by (simp add: decodeBigInt_Nil)
next
  case (snoc b bs)
  have "unat b < 256" using unsigned_less [of b] by simp
  moreover have "decodeBigInt bs + 1 \<le> 256 ^ length bs" using snoc by simp
  then have "(decodeBigInt bs + 1) * 256 \<le> 256 ^ length bs * 256" by (rule mult_le_mono1)
  ultimately show ?case by (simp add: decodeBigInt_snoc)
qed

lemma byte_of_nat_step: "(of_nat (d * 256 + unat b) :: byte) = b"
proof -
  have "(of_nat (d * 256 + unat b) :: byte) = of_nat (unat b)"
    by (simp only: word_of_nat_eq_iff) (simp add: take_bit_eq_mod)
  then show ?thesis by simp
qed

lemma be_bytes_decodeBigInt: "be_bytes (length bs) (decodeBigInt bs) = bs"
proof (induction bs rule: rev_induct)
  case Nil then show ?case by simp
next
  case (snoc b bs)
  have "unat b < 256" using unsigned_less [of b] by simp
  then have "(decodeBigInt bs * 256 + unat b) div 256 = decodeBigInt bs" by simp
  then have "be_bytes (Suc (length bs)) (decodeBigInt bs * 256 + unat b) = bs @ [b]"
    by (simp only: be_bytes.simps snoc byte_of_nat_step)
  then show ?case by (simp add: decodeBigInt_snoc)
qed

lemma be_bytes_zero: "be_bytes L 0 = replicate L 0"
  by (induction L) (simp_all add: replicate_append_same)

lemma length_be_bytes: "length (be_bytes L n) = L"
  by (induction L arbitrary: n) simp_all

lemma byte_of_and_255: "(of_nat (n AND 255) :: byte) = of_nat n"
proof -
  have "n AND 255 = take_bit 8 n" by (simp add: take_bit_eq_mask mask_eq_exp_minus_1)
  then show ?thesis by (simp add: word_of_nat_eq_iff)
qed

lemma encodeBigInt_loop_be:
  "n < 256 ^ L \<Longrightarrow> \<exists>m. encodeBigInt_loop n acc = m @ acc \<and> length m \<le> L
      \<and> replicate (L - length m) 0 @ m = be_bytes L n"
proof (induction L arbitrary: n acc)
  case 0
  then have "n = 0" by simp
  then show ?case by (subst encodeBigInt_loop.simps) simp
next
  case (Suc L)
  show ?case
  proof (cases "n = 0")
    case True
    have "encodeBigInt_loop n acc = [] @ acc" using True by (subst encodeBigInt_loop.simps) simp
    moreover have "replicate (Suc L - length ([] :: byte list)) 0 @ [] = be_bytes (Suc L) n"
      using True be_bytes_zero [of "Suc L"] by simp
    ultimately show ?thesis by (intro exI [of _ "[]"]) simp
  next
    case False
    have d: "n div 256 < 256 ^ L" using Suc.prems by (simp add: less_mult_imp_div_less)
    obtain m where m: "encodeBigInt_loop (n div 256) (of_nat n # acc) = m @ of_nat n # acc"
      "length m \<le> L" "replicate (L - length m) 0 @ m = be_bytes L (n div 256)"
      using Suc.IH [OF d, of "of_nat n # acc"] by blast
    have "encodeBigInt_loop n acc = (m @ [of_nat n]) @ acc"
      using False m(1) by (subst encodeBigInt_loop.simps) (simp add: drop_bit_eq_div byte_of_and_255)
    moreover have "replicate (Suc L - length (m @ [of_nat n :: byte])) 0 @ (m @ [of_nat n]) = be_bytes (Suc L) n"
      using m(3) by simp
    ultimately show ?thesis using m(2) by (intro exI [of _ "m @ [of_nat n]"]) simp
  qed
qed

lemma encodeBigInt_be:
  assumes "n < 256 ^ L"
  shows "encodeBigInt n (int L) = Inr (be_bytes L n)"
proof -
  obtain m where m: "encodeBigInt_loop n [] = m @ []" "length m \<le> L"
      "replicate (L - length m) 0 @ m = be_bytes L n"
    using encodeBigInt_loop_be [OF assms, of "[]"] by blast
  have "nat (int L - int (length (encodeBigInt_loop n []))) = L - length m" using m(1) by simp
  moreover have "replicate (L - length m) 0 @ encodeBigInt_loop n [] = be_bytes L n"
    using m(1,3) by simp
  moreover have "length (encodeBigInt_loop n []) = length m" using m(1) by simp
  ultimately show ?thesis using m(2)
    by (simp add: encodeBigInt_def Let_def length_be_bytes)
qed

lemma encodeBigInt_decodeBigInt: "encodeBigInt (decodeBigInt bs) (int (length bs)) = Inr bs"
  by (simp add: encodeBigInt_be [OF decodeBigInt_less] be_bytes_decodeBigInt)

subsection \<open>The fields of a mnemonic\<close>

lemma and_15: "(x :: nat) AND 15 = x mod 16"
proof -
  have "x AND 15 = take_bit 4 x" by (simp add: take_bit_eq_mask mask_eq_exp_minus_1)
  then show ?thesis by (simp add: take_bit_eq_mod)
qed

lemma intToIndices_5_4:
  "intToIndices v 5 4 = [v div 65536 mod 16, v div 4096 mod 16, v div 256 mod 16, v div 16 mod 16, v mod 16]"
proof -
  have five: "(5 :: nat) = Suc (Suc (Suc (Suc (Suc 0))))" by simp
  have "intToIndices v 5 4 = intToIndices v (Suc (Suc (Suc (Suc (Suc 0))))) 4" by (simp only: five)
  also have "\<dots> = [drop_bit 16 v AND 15, drop_bit 12 v AND 15, drop_bit 8 v AND 15, drop_bit 4 v AND 15, drop_bit 0 v AND 15]"
    by (simp add: intToIndices_Suc intToIndices_0)
  finally show ?thesis by (simp add: and_15 drop_bit_eq_div)
qed

lemma horner16:
  assumes "m < 16"
  shows "(x * 16 + m) mod 16 = (m :: nat)" "(x * 16 + m) div 16 = x"
  using assms by simp_all

lemma group_fields:
  assumes "gi \<le> 15" "a \<le> 15" "c \<le> 15" "mi \<le> 15" "m \<le> 15"
  shows "intToIndices (indices_value [gi * 64 + a * 4 + c div 4, (c mod 4) * 256 + mi * 16 + m]) 5 4
         = [gi, a, c, mi, m]"
proof -
  define v where "v = (((gi * 16 + a) * 16 + c) * 16 + mi) * 16 + m"
  define q r where "q = c div 4" and "r = c mod 4"
  have cqr: "c = q * 4 + r" by (simp add: q_def r_def)
  have "q * 1024 + r * 256 = c * 256" unfolding cqr by simp
  then have c4: "c div 4 * 1024 + c mod 4 * 256 = c * 256" by (simp only: q_def r_def)
  have "indices_value [gi * 64 + a * 4 + c div 4, (c mod 4) * 256 + mi * 16 + m]
        = (gi * 64 + a * 4 + c div 4) * 1024 + ((c mod 4) * 256 + mi * 16 + m)"
    by (simp add: indices_value_Cons indices_value_Nil)
  also have "\<dots> = gi * 65536 + a * 4096 + (c div 4 * 1024 + c mod 4 * 256) + mi * 16 + m"
    by (simp add: algebra_simps)
  also have "\<dots> = v" unfolding c4 v_def by (simp add: algebra_simps)
  finally have t: "indices_value [gi * 64 + a * 4 + c div 4, (c mod 4) * 256 + mi * 16 + m] = v" .
  have lt: "m < 16" "mi < 16" "c < 16" "a < 16" "gi < 16" using assms by simp_all
  have d1: "v div 16 = ((gi * 16 + a) * 16 + c) * 16 + mi" unfolding v_def by (rule horner16 [OF lt(1)])
  have d2: "v div 256 = (gi * 16 + a) * 16 + c"
    using div_mult2_eq [of v 16 16] d1 horner16(2) [OF lt(2)] by simp
  have d3: "v div 4096 = gi * 16 + a"
    using div_mult2_eq [of v 256 16] d2 horner16(2) [OF lt(3)] by simp
  have d4: "v div 65536 = gi"
    using div_mult2_eq [of v 4096 16] d3 horner16(2) [OF lt(4)] by simp
  have "v mod 16 = m" unfolding v_def by (rule horner16 [OF lt(1)])
  moreover have "v div 16 mod 16 = mi" unfolding d1 by (rule horner16 [OF lt(2)])
  moreover have "v div 256 mod 16 = c" unfolding d2 by (rule horner16 [OF lt(3)])
  moreover have "v div 4096 mod 16 = a" unfolding d3 by (rule horner16 [OF lt(4)])
  moreover have "v div 65536 mod 16 = gi" unfolding d4 using lt(5) by simp
  ultimately show ?thesis unfolding t intToIndices_5_4 by simp
qed


lemma group_words:
  assumes "1 \<le> gt" "1 \<le> gc" "1 \<le> mt"
  shows "nat (int (push_bit 6 gi) + push_bit 2 (int gt - 1) + drop_bit 2 (int gc - 1))
           = gi * 64 + (gt - 1) * 4 + (gc - 1) div 4"
    and "nat (push_bit 8 ((int gc - 1) AND 3) + int (push_bit 4 mi) + (int mt - 1))
           = ((gc - 1) mod 4) * 256 + mi * 16 + (mt - 1)"
proof -
  have a: "int gt - 1 = int (gt - 1)" "int gc - 1 = int (gc - 1)" "int mt - 1 = int (mt - 1)"
    using assms by simp_all
  have "int (gc - 1) AND 3 = take_bit 2 (int (gc - 1))"
    by (simp add: take_bit_eq_mask mask_eq_exp_minus_1)
  then have m: "int (gc - 1) AND 3 = int ((gc - 1) mod 4)"
    by (simp add: take_bit_eq_mod zmod_int)
  have "int (push_bit 6 gi) + push_bit 2 (int (gt - 1)) + drop_bit 2 (int (gc - 1))
        = int (gi * 64 + (gt - 1) * 4 + (gc - 1) div 4)"
    by (simp add: push_bit_eq_mult drop_bit_eq_div zdiv_int)
  then show "nat (int (push_bit 6 gi) + push_bit 2 (int gt - 1) + drop_bit 2 (int gc - 1))
           = gi * 64 + (gt - 1) * 4 + (gc - 1) div 4"
    unfolding a by (simp only: nat_int)
  have "push_bit 8 (int ((gc - 1) mod 4)) + int (push_bit 4 mi) + int (mt - 1)
        = int (((gc - 1) mod 4) * 256 + mi * 16 + (mt - 1))"
    by (simp add: push_bit_eq_mult)
  then show "nat (push_bit 8 ((int gc - 1) AND 3) + int (push_bit 4 mi) + (int mt - 1))
           = ((gc - 1) mod 4) * 256 + mi * 16 + (mt - 1)"
    unfolding a m by (simp only: nat_int)
qed

lemma prefix_fields:
  fixes ident flag iexp :: nat
  assumes "flag \<le> 1" "iexp \<le> 15"
  shows "drop_bit 5 (push_bit 5 ident + push_bit 4 flag + iexp) = ident"
    and "drop_bit 4 (push_bit 5 ident + push_bit 4 flag + iexp) AND 1 = flag"
    and "(push_bit 5 ident + push_bit 4 flag + iexp) AND 15 = iexp"
proof -
  define x where "x = push_bit 5 ident + push_bit 4 flag + iexp"
  have f: "flag * 16 + iexp < 32" using assms by simp
  have x: "x = ident * 32 + (flag * 16 + iexp)" by (simp add: x_def push_bit_eq_mult)
  show "drop_bit 5 (push_bit 5 ident + push_bit 4 flag + iexp) = ident"
    unfolding x_def [symmetric] unfolding x using f by (simp add: drop_bit_eq_div)
  have x16: "x = (ident * 2 + flag) * 16 + iexp" unfolding x by simp
  have i16: "iexp < 16" using assms(2) by simp
  have "x div 16 = (ident * 2 + flag) " unfolding x16 by (rule horner16 [OF i16])
  moreover have "(y :: nat) AND 1 = y mod 2" for y by (simp add: and_one_eq)
  ultimately show "drop_bit 4 (push_bit 5 ident + push_bit 4 flag + iexp) AND 1 = flag"
    unfolding x_def [symmetric] using assms(1) by (simp add: drop_bit_eq_div)
  have "x mod 16 = iexp" unfolding x16 by (rule horner16 [OF i16])
  then show "(push_bit 5 ident + push_bit 4 flag + iexp) AND 15 = iexp"
    unfolding x_def [symmetric] by (simp add: and_15)
qed

lemma js_slice_append_left: "js_slice 0 (length xs) (xs @ ys) = xs"
  by (simp add: js_slice_def)

lemma js_slice_drop: "js_slice (length xs + a) (length xs + b) (xs @ ys) = js_slice a b ys"
  by (simp add: js_slice_def)

lemma value_words:
  assumes "even n"
  defines "k \<equiv> bitsToWords (n * 8)"
  shows "8 * n \<le> 10 * k" 
    and "js_rem (int RADIX_BITS * int k) 16 = int (10 * k) - int (8 * n)"
    and "10 * k - 8 * n \<le> 8"
proof -
  obtain m where n: "n = 2 * m" using assms(1) by (auto elim: evenE)
  have k: "k = (16 * m + 9) div 10" by (simp add: k_def bitsToWords_def RADIX_BITS_def n)
  have lo: "16 * m \<le> 10 * k" and hi: "10 * k \<le> 16 * m + 9" unfolding k by presburger+
  obtain d where d: "10 * k = 16 * m + d" "d \<le> 9" using lo hi
    by (metis le_Suc_ex nat_add_left_cancel_le)
  have "even d" using d(1) by (metis dvd_add_right_iff even_mult_iff even_numeral)
  then have d8: "d \<le> 8" using d(2) by (cases "d = 9") auto
  show "8 * n \<le> 10 * k" using lo n by simp
  show "10 * k - 8 * n \<le> 8" using d d8 n by simp
  have "(10 * k) mod 16 = d" using d d8 by simp
  then have md: "int (10 * k) mod 16 = int d" by (metis of_nat_mod of_nat_numeral)
  have "\<not> int (10 * k) < 0" by simp
  then have "js_rem (int (10 * k)) 16 = int d" by (simp only: js_rem_def md if_False)
  moreover have "int (10 * k) - int (8 * n) = int d" unfolding d(1) n by simp
  moreover have "int RADIX_BITS * int k = int (10 * k)" by (simp add: RADIX_BITS_def)
  ultimately show "js_rem (int RADIX_BITS * int k) 16 = int (10 * k) - int (8 * n)"
    by (simp only:)
qed


lemma intFromIndices_fold:
  "fold (\<lambda>index val. case val of Inl e \<Rightarrow> Inl e | Inr v \<Rightarrow>
             (case BigInt index of Inl e \<Rightarrow> Inl e | Inr i \<Rightarrow> Inr (v * 2 ^ RADIX_BITS + i)))
        (map Index xs) (Inr a)
   = Inr (fold (\<lambda>index val. val * 2 ^ RADIX_BITS + index) xs a)"
  by (induction xs arbitrary: a) simp_all

lemma intFromIndices_numbers: "intFromIndices (map Index xs) = Inr (indices_value xs)"
  unfolding intFromIndices_def indices_value_def by (rule intFromIndices_fold)

lemma js_slice_map: "js_slice a b (map f xs) = map f (js_slice a b xs)"
  by (simp add: js_slice_def take_map drop_map)

lemma ToInt32_Index: "map ToInt32 (map Index xs) = xs"
  by (induction xs) simp_all

lemma decodeMnemonic_numbers:
  assumes "mnemonicToIndices p str = Inr (map Index data)"
  shows "decodeMnemonic p str = decode_indices p data"
  unfolding decodeMnemonic_def decode_indices_def assms sum.case js_slice_map
    intFromIndices_numbers ToInt32_Index length_map Let_def
  by (rule refl)

lemma decode_encode:
  assumes wf: "wf_platform p"
    and idl: "decodeBigInt ident < 2 ^ 15" and fl: "flag \<le> 1" and el: "iexp \<le> 15"
    and gil: "gi \<le> 15" and mil: "mi \<le> 15"
    and gt1: "1 \<le> gt" and gtc: "gt \<le> gc" and gcl: "gc \<le> 16"
    and mt1: "1 \<le> mt" and mtl: "mt \<le> 16"
    and ev: "even (length val)" and ln: "16 \<le> length val"
  shows "decodeMnemonic p (encodeMnemonic p ident flag iexp gi gt gc mi mt val)
         = Inr \<lparr> identifier = decodeBigInt ident, extendableBackupFlag = flag,
                 iterationExponent = iexp, groupIndex = gi, groupThreshold = gt,
                 groupCount = gc, memberIndex = mi, memberThreshold = mt, share = val \<rparr>"
proof -
  define W where "W = ITERATION_EXP_WORDS_LENGTH p"
  define n where "n = length val"
  define k where "k = bitsToWords (n * 8)"
  define x where "x = push_bit 5 (decodeBigInt ident) + push_bit 4 flag + iexp"
  define pre where "pre = intToIndices x W 10"
  define w3 where "w3 = gi * 64 + (gt - 1) * 4 + (gc - 1) div 4"
  define w4 where "w4 = ((gc - 1) mod 4) * 256 + mi * 16 + (mt - 1)"
  define tp where "tp = intToIndices (decodeBigInt val) k 10"
  define sd where "sd = pre @ [w3, w4] @ tp"
  define data where "data = sd @ rs1024CreateChecksum sd flag"
  have gc1: "1 \<le> gc" using gt1 gtc by simp
  have W2: "2 \<le> W" and Mw: "METADATA_WORDS_LENGTH p = W + 5"
    using wf by (simp_all add: wf_platform_def W_def CHECKSUM_WORDS_LENGTH_def)
  have enc: "encodeMnemonic p ident flag iexp gi gt gc mi mt val = mnemonicFromIndices p data"
    unfolding encodeMnemonic_def groupPrefix_def Let_def group_words [OF gt1 gc1 mt1]
    by (simp add: data_def sd_def tp_def pre_def x_def k_def n_def w3_def w4_def W_def
        ITERATION_EXP_BITS_LENGTH_def EXTENDABLE_BACKUP_FLAG_BITS_LENGTH_def RADIX_BITS_def)
  have lpre: "length pre = W" by (simp add: pre_def length_intToIndices)
  have ltp: "length tp = k" by (simp add: tp_def length_intToIndices)
  have lcs: "length (rs1024CreateChecksum sd flag) = 3" by (rule rs1024CreateChecksum_length)
  have ldata: "length data = W + 2 + k + 3" by (simp add: data_def sd_def lpre ltp rs1024CreateChecksum_length)
  have k13: "13 \<le> k" using ln by (simp add: k_def n_def bitsToWords_def RADIX_BITS_def)
  have w3l: "w3 < 1024" using gil gt1 gtc gcl unfolding w3_def by simp
  have w4l: "w4 < 1024" using mil mt1 mtl unfolding w4_def
    by (simp add: add_less_le_mono)
  have small: "\<forall>i \<in> set data. i < 1024"
    using w3l w4l by (auto simp: data_def sd_def pre_def tp_def
        dest: intToIndices_less rs1024CreateChecksum_words)
  have "data \<noteq> []" using ldata by auto
  then have m2i: "mnemonicToIndices p (mnemonicFromIndices p data) = Inr (map Index data)"
    using wf small by (intro mnemonicToIndices_FromIndices)
  have l20: "\<not> length data < MNEMONICS_WORDS_LENGTH"
    using W2 k13 by (simp add: ldata MNEMONICS_WORDS_LENGTH_def)
  have vw: "8 * n \<le> 10 * k" "js_rem (int RADIX_BITS * int k) 16 = int (10 * k) - int (8 * n)"
    "10 * k - 8 * n \<le> 8"
    using value_words [of n] ev by (simp_all add: k_def n_def)
  have "int (length data) - int (METADATA_WORDS_LENGTH p) = int k" by (simp add: ldata Mw)
  then have pad: "js_rem (int RADIX_BITS * (int (length data) - int (METADATA_WORDS_LENGTH p))) 16
             = int (10 * k) - int (8 * n)"
    by (simp only: vw(2))
  have pad8: "\<not> int (10 * k) - int (8 * n) > 8" using vw(1,3) by simp
  have s1: "js_slice 0 (ITERATION_EXP_WORDS_LENGTH p) data = pre"
    using js_slice_append_left [of pre "[w3, w4] @ tp @ rs1024CreateChecksum sd flag"]
    by (simp add: data_def sd_def lpre W_def)
  have s2: "js_slice (ITERATION_EXP_WORDS_LENGTH p) (ITERATION_EXP_WORDS_LENGTH p + 2) data = [w3, w4]"
    using js_slice_drop [of pre 0 2 "[w3, w4] @ tp @ rs1024CreateChecksum sd flag"]
    by (simp add: data_def sd_def lpre W_def js_slice_def)
  have s3: "js_slice (ITERATION_EXP_WORDS_LENGTH p + 2) (length data - CHECKSUM_WORDS_LENGTH) data = tp"
    by (simp add: js_slice_def data_def sd_def lpre ltp rs1024CreateChecksum_length W_def [symmetric] CHECKSUM_WORDS_LENGTH_def)
  have xl: "x < 2 ^ 20"
  proof -
    have "x = decodeBigInt ident * 32 + (flag * 16 + iexp)" by (simp add: x_def push_bit_eq_mult)
    moreover have "decodeBigInt ident * 32 + 32 \<le> 2 ^ 15 * 32"
      using idl by simp
    moreover have "flag * 16 + iexp < 32" using fl el by simp
    ultimately show ?thesis by simp
  qed
  have "(2 :: nat) ^ 20 \<le> 2 ^ (10 * W)" using W2 by (intro power_increasing) simp_all
  then have "x < 2 ^ (10 * W)" using xl by (rule less_le_trans [rotated])
  then have ipre: "indices_value pre = x"
    by (simp add: pre_def indices_value_intToIndices take_bit_nat_eq_self)
  have "decodeBigInt val < 256 ^ n" unfolding n_def by (rule decodeBigInt_less)
  also have "(256 :: nat) ^ n = 2 ^ (8 * n)" by (simp add: power_mult)
  also have "\<dots> \<le> 2 ^ (10 * k)" using vw(1) by (intro power_increasing) simp_all
  finally have itp: "indices_value tp = decodeBigInt val"
    by (simp add: tp_def indices_value_intToIndices take_bit_nat_eq_self)
  have pf: "drop_bit (ITERATION_EXP_BITS_LENGTH + EXTENDABLE_BACKUP_FLAG_BITS_LENGTH) x = decodeBigInt ident"
    "drop_bit ITERATION_EXP_BITS_LENGTH x AND (push_bit EXTENDABLE_BACKUP_FLAG_BITS_LENGTH 1 - 1) = flag"
    "x AND (push_bit ITERATION_EXP_BITS_LENGTH 1 - 1) = iexp"
    using prefix_fields [OF fl el, of "decodeBigInt ident"]
    by (simp_all add: x_def ITERATION_EXP_BITS_LENGTH_def EXTENDABLE_BACKUP_FLAG_BITS_LENGTH_def)
  have ck: "rs1024VerifyChecksum data flag" unfolding data_def by (rule checksum_verifies)
  have gf: "intToIndices (indices_value [w3, w4]) 5 4 = [gi, gt - 1, gc - 1, mi, mt - 1]"
    unfolding w3_def w4_def using gil mil gt1 gtc gcl mtl by (intro group_fields) simp_all
  have vb: "bitsToBytes (int RADIX_BITS * int (length tp) - (int (10 * k) - int (8 * n))) = int (length val)"
    by (simp add: bitsToBytes_def ltp RADIX_BITS_def n_def)
  have eb: "encodeBigInt (decodeBigInt val) (int (length val)) = Inr val"
    by (rule encodeBigInt_decodeBigInt)
  have cmp: "\<not> gc - 1 < gt - 1" using gtc by simp
  show ?thesis
    unfolding enc decodeMnemonic_numbers [OF m2i] decode_indices_def Let_def s1 s2 s3 ipre itp pf gf pad vb eb
    using gt1 gc1 mt1 cmp l20 pad8 ck
    by simp
qed

lemma encodeMnemonic_indices:
  "encodeMnemonic p ident flag iexp gi gt gc mi mt val
     = mnemonicFromIndices p (encode_indices p ident flag iexp gi gt gc mi mt val)"
  unfolding encodeMnemonic_def encode_indices_def Let_def by simp

subsection \<open>The platform of the examples\<close>

lemma toy_word_chars:
  assumes "c \<in> set (toy_word i)"
  shows "97 \<le> (of_char c :: nat) \<and> (of_char c :: nat) \<le> 112 \<or> i \<ge> 1024"
proof (cases "i < 1024")
  case True
  then have "i div 64 < 16" by simp
  moreover have "i div 8 mod 8 < 8" "i mod 8 < 8" by simp_all
  ultimately show ?thesis using assms
    by (auto simp: toy_word_def)
next
  case False then show ?thesis by simp
qed

lemma toy_word_inj:
  assumes "i < 1024" "j < 1024" "toy_word i = toy_word j"
  shows "i = j"
proof -
  have a: "i div 64 < 16" "j div 64 < 16" using assms by simp_all
  have b: "i div 8 mod 8 < 8" "j div 8 mod 8 < 8" "i mod 8 < 8" "j mod 8 < 8" by simp_all
  from assms(3) have "map of_char (toy_word i) = (map of_char (toy_word j) :: nat list)"
    by simp
  then have "(97 + i div 64) mod 256 = (97 + j div 64) mod 256"
    and "(97 + i div 8 mod 8) mod 256 = (97 + j div 8 mod 8) mod 256"
    and "(97 + i mod 8) mod 256 = (97 + j mod 8) mod 256"
    unfolding toy_word_def list.map of_char_of by simp_all
  then have e: "i div 64 = j div 64" "i div 8 mod 8 = j div 8 mod 8" "i mod 8 = j mod 8"
    using a b by simp_all
  have "i div 8 = j div 8"
    using e(1,2) div_mult2_eq [of i 8 8] div_mult2_eq [of j 8 8]
    by (metis mult_div_mod_eq numeral_times_numeral semiring_norm(12,13))
  then show ?thesis using e(3) by (metis mult_div_mod_eq)
qed

lemma wf_toy_platform: "wf_platform toy_platform"
proof -
  have d: "distinct (map toy_word [0..<1024])"
    by (auto simp: distinct_map inj_on_def dest: toy_word_inj)
  have c: "CHR '' '' \<notin> set w \<and> CHR '','' \<notin> set w \<and> toLowerCase w = w"
    if "w \<in> set (map toy_word [0..<1024])" for w
  proof -
    from that have "w \<in> toy_word ` {0..<1024}" by simp
    then obtain i where i: "i < 1024" "w = toy_word i" by auto
    have r: "97 \<le> (of_char c :: nat) \<and> (of_char c :: nat) \<le> 112" if "c \<in> set w" for c
      using toy_word_chars [of c i] that i by auto
    have "CHR '' '' \<notin> set w" using r [of "CHR '' ''"] by auto
    moreover have "CHR '','' \<notin> set w" using r [of "CHR '',''"] by auto
    moreover have "toLowerCase_char c = c" if "c \<in> set w" for c
      using r [OF that] by (simp add: toLowerCase_char_def Let_def)
    then have "toLowerCase w = w"
      unfolding toLowerCase_def by (intro map_idI)
    ultimately show ?thesis by simp
  qed
  show ?thesis
    unfolding wf_platform_def using d c
    by (simp add: toy_platform_def CHECKSUM_WORDS_LENGTH_def)
qed

subsection \<open>Running the codec on numerals\<close>

lemma decodeBigInt_foldl: "decodeBigInt bs = foldl (\<lambda>a b. a * 256 + unat b) 0 bs"
  by (induction bs rule: rev_induct) (simp_all add: decodeBigInt_Nil decodeBigInt_snoc)

lemma intToIndices_numeral:
  "intToIndices v (numeral n) bits
     = (drop_bit (pred_numeral n * bits) v AND (push_bit bits 1 - 1)) # intToIndices v (pred_numeral n) bits"
  by (simp add: numeral_eq_Suc intToIndices_Suc)

lemma toy_consts: "ITERATION_EXP_WORDS_LENGTH toy_platform = 2" "METADATA_WORDS_LENGTH toy_platform = 7"
  by (simp_all add: toy_platform_def)

lemmas polymod_eval =
  rs1024Polymod_def rs1024Polymod_step_def GEN_def Let_def upt_rec [of _ "numeral n" for n]
  drop_bit_eq_div push_bit_eq_mult

lemmas indices_eval =
  decodeBigInt_foldl intToIndices_numeral intToIndices_Suc intToIndices_0 groupPrefix_def toy_consts
  RADIX_BITS_def ITERATION_EXP_BITS_LENGTH_def EXTENDABLE_BACKUP_FLAG_BITS_LENGTH_def
  bitsToWords_def Let_def drop_bit_eq_div push_bit_eq_mult

lemma cs16:
  "rs1024CreateChecksum [145, 656, 0, 0, 65, 265, 52, 273, 326, 285, 132, 594, 587, 305, 212, 915, 848] 0
   = [181, 103, 149]"
proof -
  have v: "encodeHexString (get_customization_string 0)
             @ [145, 656, 0, 0, 65, 265, 52, 273, 326, 285, 132, 594, 587, 305, 212, 915, 848]
             @ generateArray CHECKSUM_WORDS_LENGTH (\<lambda>_. 0)
           = [115, 104, 97, 109, 105, 114, 145, 656, 0, 0, 65, 265, 52, 273, 326, 285, 132, 594,
              587, 305, 212, 915, 848, 0, 0, 0 :: nat]"
    by (simp add: encodeHexString_def get_customization_string_def
        CUSTOMIZATION_STRING_NON_EXTENDABLE_def generateArray_def CHECKSUM_WORDS_LENGTH_def
        upt_rec [of _ "numeral n" for n])
  have pm: "rs1024Polymod [115, 104, 97, 109, 105, 114, 145, 656, 0, 0, 65, 265, 52, 273, 326, 285,
              132, 594, 587, 305, 212, 915, 848, 0, 0, 0] = 189897876"
    by (simp add: polymod_eval)
  show ?thesis
    unfolding rs1024CreateChecksum_def Let_def v pm
    by (simp add: generateArray_def CHECKSUM_WORDS_LENGTH_def upt_rec [of _ "numeral n" for n]
        drop_bit_eq_div)
qed


lemma E16: "encode_indices toy_platform [0x12, 0x34] 0 16 0 1 1 0 1
              [65, 66, 67, 68, 69, 70, 71, 72, 73, 74, 75, 76, 77, 78, 79, 80]
            = [145, 656, 0, 0, 65, 265, 52, 273, 326, 285, 132, 594, 587, 305, 212, 915,
               848, 181, 103, 149]"
proof -
  have "encode_indices toy_platform [0x12, 0x34] 0 16 0 1 1 0 1
              [65, 66, 67, 68, 69, 70, 71, 72, 73, 74, 75, 76, 77, 78, 79, 80]
        = [145, 656, 0, 0, 65, 265, 52, 273, 326, 285, 132, 594, 587, 305, 212, 915, 848]
          @ rs1024CreateChecksum
              [145, 656, 0, 0, 65, 265, 52, 273, 326, 285, 132, 594, 587, 305, 212, 915, 848] 0"
    by (simp add: encode_indices_def indices_eval)
  then show ?thesis by (simp add: cs16)
qed

lemma vf16:
  "\<not> rs1024VerifyChecksum [145, 656, 0, 0, 65, 265, 52, 273, 326, 285, 132, 594, 587, 305, 212,
        915, 848, 181, 103, 149] 1"
proof -
  have v: "encodeHexString (get_customization_string 1)
             @ [145, 656, 0, 0, 65, 265, 52, 273, 326, 285, 132, 594, 587, 305, 212, 915, 848,
                181, 103, 149]
           = [115, 104, 97, 109, 105, 114, 95, 101, 120, 116, 101, 110, 100, 97, 98, 108, 101,
              145, 656, 0, 0, 65, 265, 52, 273, 326, 285, 132, 594, 587, 305, 212, 915, 848,
              181, 103, 149 :: nat]"
    by (simp add: encodeHexString_def get_customization_string_def CUSTOMIZATION_STRING_EXTENDABLE_def)
  have pm: "rs1024Polymod [115, 104, 97, 109, 105, 114, 95, 101, 120, 116, 101, 110, 100, 97, 98, 108, 101,
              145, 656, 0, 0, 65, 265, 52, 273, 326, 285, 132, 594, 587, 305, 212, 915, 848,
              181, 103, 149] = 673650172"
    by (simp add: polymod_eval)
  show ?thesis unfolding rs1024VerifyChecksum_def v pm by simp
qed

lemma D16: "decode_indices toy_platform
              [145, 656, 0, 0, 65, 265, 52, 273, 326, 285, 132, 594, 587, 305, 212, 915,
               848, 181, 103, 149] = Inl InvalidChecksum"
proof -
  have f: "drop_bit ITERATION_EXP_BITS_LENGTH (indices_value (js_slice 0 2
             [145, 656, 0, 0, 65, 265, 52, 273, 326, 285, 132, 594, 587, 305, 212, 915,
               848, 181, 103, 149]))
           AND (push_bit EXTENDABLE_BACKUP_FLAG_BITS_LENGTH 1 - 1) = 1"
    by (simp add: js_slice_def indices_value_Cons indices_value_Nil ITERATION_EXP_BITS_LENGTH_def
        EXTENDABLE_BACKUP_FLAG_BITS_LENGTH_def drop_bit_eq_div and_one_eq)
  show ?thesis
    unfolding decode_indices_def Let_def toy_consts f
    using vf16 by (simp add: MNEMONICS_WORDS_LENGTH_def RADIX_BITS_def js_rem_def)
qed

subsection \<open>The round trip of the codec\<close>

text \<open>
  Lemma \<open>decode_encode\<close> is the round trip for an iteration exponent that fits the four
  bits of its field. Here it is at the largest such exponent.
\<close>

lemma mnemonic_codec_exponent_15:
  "decodeMnemonic toy_platform
        (encodeMnemonic toy_platform [0x12, 0x34] 1 15 5 1 1 9 2
           [65, 66, 67, 68, 69, 70, 71, 72, 73, 74, 75, 76, 77, 78, 79, 80])
       = Inr \<lparr> identifier = 4660, extendableBackupFlag = 1, iterationExponent = 15,
               groupIndex = 5, groupThreshold = 1, groupCount = 1, memberIndex = 9,
               memberThreshold = 2,
               share = [65, 66, 67, 68, 69, 70, 71, 72, 73, 74, 75, 76, 77, 78, 79, 80] \<rparr>"
proof -
  have i: "decodeBigInt [0x12, 0x34] = 4660" by (simp add: decodeBigInt_foldl)
  have "decodeBigInt [0x12, 0x34] < 2 ^ 15" unfolding i by simp
  from decode_encode [OF wf_toy_platform this, of 1 15 5 9 1 1 2
      "[65, 66, 67, 68, 69, 70, 71, 72, 73, 74, 75, 76, 77, 78, 79, 80]"]
  show ?thesis by (simp add: i)
qed

text \<open>
  C5: the round trip of the codec is claimed for every iteration exponent in [0, 16]. The
  code breaks it at the exponent 16. \<open>crypt\<close> admits 16 (it rejects an exponent above
  \<open>MAX_ITERATION_EXP\<close>), but \<open>groupPrefix\<close> adds the exponent unmasked to a field of four
  bits: the fifth bit lands on the extendable flag, \<open>decodeMnemonic\<close> reads the flag 1 and
  the exponent 0, and checks the checksum against the other customization string. For the
  identifier 0x1234, the flag 0, the exponent 16, group 0 of one group with threshold 1,
  member 0 with threshold 1 and the sixteen bytes of "ABCDEFGHIJKLMNOP", decoding the
  encoded mnemonic does not return the fields: it throws "Invalid mnemonic checksum".
\<close>

theorem mnemonic_codec_exponent_16:
  "decodeMnemonic toy_platform
     (encodeMnemonic toy_platform [0x12, 0x34] 0 16 0 1 1 0 1
        [65, 66, 67, 68, 69, 70, 71, 72, 73, 74, 75, 76, 77, 78, 79, 80])
   = Inl InvalidChecksum"
proof -
  have "mnemonicToIndices toy_platform (mnemonicFromIndices toy_platform
          [145, 656, 0, 0, 65, 265, 52, 273, 326, 285, 132, 594, 587, 305, 212, 915,
               848, 181, 103, 149])
        = Inr (map Index [145, 656, 0, 0, 65, 265, 52, 273, 326, 285, 132, 594, 587, 305, 212, 915,
               848, 181, 103, 149])"
    by (rule mnemonicToIndices_FromIndices [OF wf_toy_platform]) simp_all
  then show ?thesis
    unfolding encodeMnemonic_indices E16 by (simp only: decodeMnemonic_numbers D16)
qed

subsection \<open>When a mnemonic is valid\<close>

lemma toy_word_length: "length (toy_word i) = 3"
  by (simp add: toy_word_def)

lemma constructor_not_toy: "''constructor'' \<notin> set (WORD_LIST toy_platform)"
proof
  assume "''constructor'' \<in> set (WORD_LIST toy_platform)"
  then obtain i where "''constructor'' = toy_word i" by (auto simp: toy_platform_def)
  then have "length ''constructor'' = length (toy_word i)" by simp
  then show False by (simp add: toy_word_length)
qed

lemma WORD_LIST_MAP_constructor: "WORD_LIST_MAP toy_platform ''constructor'' = Some Inherited"
proof -
  have h: "map_of (zip (WORD_LIST toy_platform) [0..<length (WORD_LIST toy_platform)]) ''constructor'' = None"
    using constructor_not_toy by (simp add: map_of_zip_is_None)
  show ?thesis unfolding WORD_LIST_MAP_def h by (simp add: Object_prototype_def)
qed

lemma lookup_words_append:
  "lookup_words p (xs @ ys) =
     (case lookup_words p xs of Inl e \<Rightarrow> Inl e
      | Inr a \<Rightarrow> (case lookup_words p ys of Inl e \<Rightarrow> Inl e | Inr b \<Rightarrow> Inr (a @ b)))"
  by (induction xs) (auto split: option.splits sum.splits)

lemma mnemonicToIndices_constructor:
  "mnemonicToIndices toy_platform
     ''ccb kaa aaa aaa bab ebb age ecb fag edf cae jcc jbd egb dce obe afg iah ldf constructor''
   = Inr [Index 145, Index 640, Index 0, Index 0, Index 65, Index 265, Index 52, Index 273,
          Index 326, Index 285, Index 132, Index 594, Index 587, Index 305, Index 212,
          Index 908, Index 46, Index 519, Index 733, Inherited]"
proof -
  let ?is = "[145, 640, 0, 0, 65, 265, 52, 273, 326, 285, 132, 594, 587, 305, 212, 908, 46, 519, 733] :: nat list"
  let ?ws = "map (word_at toy_platform) ?is @ [''constructor'']"
  have str: "''ccb kaa aaa aaa bab ebb age ecb fag edf cae jcc jbd egb dce obe afg iah ldf constructor''
       = join (CHR '' '') ?ws"
    by (simp add: word_at_def toy_platform_def toy_word_def char_of_def bit_0)
  have mem: "w \<in> set (WORD_LIST toy_platform) \<or> w = ''constructor''" if "w \<in> set ?ws" for w
    using that by (auto simp: word_at_def toy_platform_def)
  have ok: "CHR '' '' \<notin> set w \<and> toLowerCase w = w" if "w \<in> set ?ws" for w
  proof -
    from mem [OF that] show ?thesis
    proof
      assume "w \<in> set (WORD_LIST toy_platform)"
      then show ?thesis using wf_toy_platform by (simp add: wf_platform_def)
    next
      assume "w = ''constructor''"
      then show ?thesis by (simp add: toLowerCase_def toLowerCase_char_def Let_def)
    qed
  qed
  have l: "map toLowerCase ?ws = ?ws" using ok by (intro map_idI) blast
  have s: "split (CHR '' '') (join (CHR '' '') ?ws) = ?ws"
    using ok by (intro split_join) (simp, blast)
  have k: "lookup_words toy_platform (map (word_at toy_platform) ?is) = Inr (map Index ?is)"
    using wf_toy_platform by (intro lookup_words_nth) (simp_all add: wf_platform_def)
  have "lookup_words toy_platform ?ws = Inr (map Index ?is @ [Inherited])"
    unfolding lookup_words_append k by (simp add: WORD_LIST_MAP_constructor)
  then have "mnemonicToIndices toy_platform (join (CHR '' '') ?ws) = Inr (map Index ?is @ [Inherited])"
    unfolding mnemonicToIndices_def toLowerCase_join [OF toLowerCase_space] l s .
  then show ?thesis unfolding str by simp
qed

lemma vfc:
  "rs1024VerifyChecksum (map ToInt32
     [Index 145, Index 640, Index 0, Index 0, Index 65, Index 265, Index 52, Index 273,
      Index 326, Index 285, Index 132, Index 594, Index 587, Index 305, Index 212,
      Index 908, Index 46, Index 519, Index 733, Inherited]) 0"
proof -
  have v: "encodeHexString (get_customization_string 0) @ map ToInt32
     [Index 145, Index 640, Index 0, Index 0, Index 65, Index 265, Index 52, Index 273,
      Index 326, Index 285, Index 132, Index 594, Index 587, Index 305, Index 212,
      Index 908, Index 46, Index 519, Index 733, Inherited]
    = [115, 104, 97, 109, 105, 114, 145, 640, 0, 0, 65, 265, 52, 273, 326, 285, 132, 594,
       587, 305, 212, 908, 46, 519, 733, 0]"
    by (simp add: encodeHexString_def get_customization_string_def CUSTOMIZATION_STRING_NON_EXTENDABLE_def)
  have pm: "rs1024Polymod [115, 104, 97, 109, 105, 114, 145, 640, 0, 0, 65, 265, 52, 273, 326, 285,
       132, 594, 587, 305, 212, 908, 46, 519, 733, 0] = 1"
    by (simp add: polymod_eval)
  show ?thesis unfolding rs1024VerifyChecksum_def v pm by simp
qed

lemma decodeMnemonic_constructor:
  "decodeMnemonic toy_platform
     ''ccb kaa aaa aaa bab ebb age ecb fag edf cae jcc jbd egb dce obe afg iah ldf constructor''
   = Inr \<lparr> identifier = 4660, extendableBackupFlag = 0, iterationExponent = 0,
           groupIndex = 0, groupThreshold = 1, groupCount = 1, memberIndex = 0,
           memberThreshold = 1,
           share = [65, 66, 67, 68, 69, 70, 71, 72, 73, 74, 75, 76, 77, 78, 48, 46] \<rparr>"
proof -
  let ?D = "[Index 145, Index 640, Index 0, Index 0, Index 65, Index 265, Index 52, Index 273,
          Index 326, Index 285, Index 132, Index 594, Index 587, Index 305, Index 212,
          Index 908, Index 46, Index 519, Index 733, Inherited]"
  have s1: "intFromIndices (js_slice 0 2 ?D) = Inr 149120"
    by (simp add: js_slice_def intFromIndices_def RADIX_BITS_def)
  have s2: "intFromIndices (js_slice 2 (2 + 2) ?D) = Inr 0"
    by (simp add: js_slice_def intFromIndices_def RADIX_BITS_def)
  have s3: "intFromIndices (js_slice (2 + 2) (length ?D - CHECKSUM_WORDS_LENGTH) ?D)
            = Inr 86743875649080753100636639643044818990"
    by (simp add: js_slice_def intFromIndices_def RADIX_BITS_def CHECKSUM_WORDS_LENGTH_def)
  have l3: "length (js_slice (2 + 2) (length ?D - CHECKSUM_WORDS_LENGTH) ?D) = 13"
    by (simp add: js_slice_def CHECKSUM_WORDS_LENGTH_def)
  have "decodeBigInt [65, 66, 67, 68, 69, 70, 71, 72, 73, 74, 75, 76, 77, 78, 48, 46]
        = 86743875649080753100636639643044818990"
    by (simp add: decodeBigInt_foldl)
  then have eb: "encodeBigInt 86743875649080753100636639643044818990 16
        = Inr [65, 66, 67, 68, 69, 70, 71, 72, 73, 74, 75, 76, 77, 78, 48, 46]"
    using encodeBigInt_decodeBigInt [of "[65, 66, 67, 68, 69, 70, 71, 72, 73, 74, 75, 76, 77, 78, 48, 46]"]
    by simp
  have f: "drop_bit ITERATION_EXP_BITS_LENGTH (149120 :: nat)
           AND (push_bit EXTENDABLE_BACKUP_FLAG_BITS_LENGTH 1 - 1) = 0"
    "drop_bit (ITERATION_EXP_BITS_LENGTH + EXTENDABLE_BACKUP_FLAG_BITS_LENGTH) (149120 :: nat) = 4660"
    "(149120 :: nat) AND (push_bit ITERATION_EXP_BITS_LENGTH 1 - 1) = 0"
    by (simp_all add: ITERATION_EXP_BITS_LENGTH_def EXTENDABLE_BACKUP_FLAG_BITS_LENGTH_def
        drop_bit_eq_div and_one_eq and_15)
  have i5: "intToIndices 0 5 4 = [0, 0, 0, 0, 0]"
    by (simp add: intToIndices_5_4)
  have pad: "js_rem (int RADIX_BITS * (int (length ?D) - int 7)) 16 = 2"
    by (simp add: js_rem_def RADIX_BITS_def)
  have vb: "bitsToBytes (int RADIX_BITS * int 13 - 2) = 16"
    by (simp add: bitsToBytes_def RADIX_BITS_def)
  have n20: "\<not> length ?D < MNEMONICS_WORDS_LENGTH" by (simp add: MNEMONICS_WORDS_LENGTH_def)
  show ?thesis
    unfolding decodeMnemonic_def mnemonicToIndices_constructor sum.case toy_consts Let_def
      pad s1 s2 s3 l3 f i5 vb eb
    using vfc n20 by simp
qed

text \<open>
  C7: \<open>validateMnemonic\<close> is claimed to return true only for a mnemonic whose words are all
  in the dictionary. \<open>mnemonicToIndices\<close> throws "Invalid mnemonic word" when the read of
  \<open>WORD_LIST_MAP\<close> gives \<open>undefined\<close>, and misses the names that the read finds on
  \<open>Object.prototype\<close>: under \<open>constructor\<close> it finds a function, and appends it to the
  indices. As one of the three checksum words the function only reaches \<open>^\<close>, which
  computes with 0. So in a valid mnemonic whose last checksum word is the word of index 0,
  that word can be replaced by \<open>constructor\<close>: the code still finds the mnemonic valid (and
  decodes it to the same fields), although \<open>constructor\<close> is not in the dictionary.
\<close>

theorem validateMnemonic_accepts_constructor:
  "validateMnemonic toy_platform
     ''ccb kaa aaa aaa bab ebb age ecb fag edf cae jcc jbd egb dce obe afg iah ldf constructor''
   \<and> ''constructor'' \<notin> set (WORD_LIST toy_platform)"
  using constructor_not_toy by (simp add: validateMnemonic_def decodeMnemonic_constructor)

subsection \<open>What decoding does not check\<close>

lemma decodeMnemonic_threshold_le_count:
  assumes "decodeMnemonic p s = Inr d"
  shows "groupThreshold d \<le> groupCount d"
  using assms
  by (auto simp: decodeMnemonic_def Let_def split: sum.splits if_splits)

text \<open>
  C10: decoding does not compare the index fields with the counts. For every group index
  and member index in [0, 15], every group threshold and group count in [1, 16] with the
  threshold at most the count, and every member threshold in [1, 16], there is a mnemonic
  that \<open>decodeMnemonic\<close> accepts with exactly these fields and that \<open>validateMnemonic\<close>
  finds valid: so also when the group index is at least the group count. The one relation
  between fields that decoding enforces is that the group threshold is at most the group
  count.
\<close>

theorem decode_checks_no_index_bound:
  assumes "wf_platform p"
    and "gi \<le> 15" and "mi \<le> 15"
    and "1 \<le> gt" and "gt \<le> gc" and "gc \<le> 16"
    and "1 \<le> mt" and "mt \<le> 16"
  shows "(\<exists>s d. decodeMnemonic p s = Inr d \<and> validateMnemonic p s
            \<and> groupIndex d = gi \<and> groupThreshold d = gt \<and> groupCount d = gc
            \<and> memberIndex d = mi \<and> memberThreshold d = mt)
         \<and> (\<forall>s d. decodeMnemonic p s = Inr d \<longrightarrow> groupThreshold d \<le> groupCount d)"
proof -
  let ?s = "encodeMnemonic p [0, 0] 0 0 gi gt gc mi mt (replicate 16 0)"
  have "decodeBigInt [0, 0] < 2 ^ 15" by (simp add: decodeBigInt_foldl)
  then have d: "decodeMnemonic p ?s
      = Inr \<lparr> identifier = decodeBigInt [0, 0], extendableBackupFlag = 0,
              iterationExponent = 0, groupIndex = gi, groupThreshold = gt,
              groupCount = gc, memberIndex = mi, memberThreshold = mt,
              share = replicate 16 0 \<rparr>"
    using assms by (intro decode_encode) simp_all
  then have "validateMnemonic p ?s" by (simp add: validateMnemonic_def)
  with d show ?thesis
    by (auto dest: decodeMnemonic_threshold_le_count intro!: exI [of _ ?s])
qed

theorem decode_checks_no_index_bound_witness:
  "\<exists>s d. decodeMnemonic toy_platform s = Inr d \<and> validateMnemonic toy_platform s
          \<and> groupIndex d = 5 \<and> groupThreshold d = 1 \<and> groupCount d = 1
          \<and> memberIndex d = 9 \<and> memberThreshold d = 2"
  using decode_checks_no_index_bound [OF wf_toy_platform, of 5 9 1 1 2] by simp

subsection \<open>Generation at the iteration exponent 16\<close>

lemma toy_prims: "pbkdf2 toy_platform = toy_pbkdf2" "hmac_sha256 toy_platform = toy_hmac"
  by (simp_all add: toy_platform_def)
















subsection \<open>The counts that \<open>combineMnemonics\<close> checks\<close>

lemma set_add_set: "set (set_add x xs) = insert x (set xs)"
  by (auto simp: set_add_def)

lemma set_add_distinct: "distinct xs \<Longrightarrow> distinct (set_add x xs)"
  by (simp add: set_add_def)

lemma update_fst_set: "fst ` set (AList.update k v al) = insert k (fst ` set al)"
  using AList.dom_update [of k v al] by (simp add: dom_map_of_conv_image_fst)

lemma update_mem:
  assumes "distinct (map fst al)"
  shows "(k', v') \<in> set (AList.update k v al) \<longleftrightarrow> (if k' = k then v' = v else (k', v') \<in> set al)"
proof -
  have d: "distinct (map fst (AList.update k v al))" using assms by (rule AList.distinct_update)
  have "(k', v') \<in> set (AList.update k v al) \<longleftrightarrow> map_of (AList.update k v al) k' = Some v'"
    using d by simp
  also have "\<dots> \<longleftrightarrow> (if k' = k then v' = v else map_of al k' = Some v')"
    by (auto simp: AList.update_conv')
  also have "\<dots> \<longleftrightarrow> (if k' = k then v' = v else (k', v') \<in> set al)"
    using assms by simp
  finally show ?thesis .
qed

lemma step_Inr:
  assumes "decodeMnemonics_step p m st = Inr st'"
  obtains d where "decodeMnemonic p m = Inr d" "length (group_after st d) = 1"
    "groups st' = AList.update (groupIndex d) (group_after st d) (groups st)"
    "groupThresholds st' = set_add (groupThreshold d) (groupThresholds st)"
proof (cases "decodeMnemonic p m")
  case (Inl e)
  then show ?thesis using assms by (simp add: decodeMnemonics_step_def)
next
  case (Inr d)
  have "length (group_after st d) = 1 \<and>
        groups st' = AList.update (groupIndex d) (group_after st d) (groups st) \<and>
        groupThresholds st' = set_add (groupThreshold d) (groupThresholds st)"
    using assms unfolding decodeMnemonics_step_def Inr sum.case group_after_def Let_def
    by (auto split: if_splits)
  then show ?thesis using that Inr by blast
qed

lemma group_after_None:
  assumes "map_of (groups st) (groupIndex d) = None"
  shows "group_after st d = [(memberThreshold d, [(memberIndex d, share d)])]"
  using assms by (simp add: group_after_def)

lemma group_after_Some:
  assumes "map_of (groups st) (groupIndex d) = Some [(t, mem)]" "length (group_after st d) = 1"
  shows "memberThreshold d = t \<and> group_after st d = [(t, AList.update (memberIndex d) (share d) mem)]"
proof (cases "memberThreshold d = t")
  case True
  then show ?thesis using assms(1) by (simp add: group_after_def)
next
  case False
  then have "length (group_after st d) = 2" using assms(1) by (simp add: group_after_def)
  then show ?thesis using assms(2) by simp
qed


lemma entry_ok_other:
  assumes "entry_ok ds g grp" "groupIndex d \<noteq> g"
  shows "entry_ok (ds @ [d]) g grp"
proof -
  have e: "{d' \<in> set (ds @ [d]). groupIndex d' = g} = {d' \<in> set ds. groupIndex d' = g}"
    using assms(2) by auto
  from assms(1) obtain t mem where tm: "grp = [(t, mem)]" "distinct (map fst mem)"
      "fst ` set mem = memberIndex ` {d \<in> set ds. groupIndex d = g}"
      "\<forall>d \<in> set ds. groupIndex d = g \<longrightarrow> memberThreshold d = t"
    unfolding entry_ok_def by blast
  have "\<forall>d' \<in> set (ds @ [d]). groupIndex d' = g \<longrightarrow> memberThreshold d' = t"
    using tm(4) assms(2) by simp
  then show ?thesis unfolding entry_ok_def e using tm(1,2,3) by blast
qed

lemma entry_ok_new:
  assumes "groupIndex d \<notin> groupIndex ` set ds"
  shows "entry_ok (ds @ [d]) (groupIndex d) [(memberThreshold d, [(memberIndex d, share d)])]"
proof -
  have n: "groupIndex d' \<noteq> groupIndex d" if "d' \<in> set ds" for d'
  proof
    assume e: "groupIndex d' = groupIndex d"
    have "groupIndex d' \<in> groupIndex ` set ds" using that by (rule imageI)
    then show False using assms unfolding e by simp
  qed
  have e: "{d' \<in> set (ds @ [d]). groupIndex d' = groupIndex d} = {d}"
    using n by auto
  have "\<forall>d' \<in> set (ds @ [d]). groupIndex d' = groupIndex d \<longrightarrow> memberThreshold d' = memberThreshold d"
    using n by simp
  then show ?thesis unfolding entry_ok_def e by simp
qed

lemma entry_ok_update:
  assumes "entry_ok ds (groupIndex d) [(memberThreshold d, mem)]"
  shows "entry_ok (ds @ [d]) (groupIndex d)
           [(memberThreshold d, AList.update (memberIndex d) (share d) mem)]"
proof -
  have e: "{d' \<in> set (ds @ [d]). groupIndex d' = groupIndex d}
           = insert d {d' \<in> set ds. groupIndex d' = groupIndex d}"
    by auto
  from assms have tm: "distinct (map fst mem)"
      "fst ` set mem = memberIndex ` {d' \<in> set ds. groupIndex d' = groupIndex d}"
      "\<forall>d' \<in> set ds. groupIndex d' = groupIndex d \<longrightarrow> memberThreshold d' = memberThreshold d"
    unfolding entry_ok_def by simp_all
  have "\<forall>d' \<in> set (ds @ [d]). groupIndex d' = groupIndex d \<longrightarrow> memberThreshold d' = memberThreshold d"
    using tm(3) by simp
  moreover have "distinct (map fst (AList.update (memberIndex d) (share d) mem))"
    using tm(1) by (rule AList.distinct_update)
  moreover have "fst ` set (AList.update (memberIndex d) (share d) mem)
                 = memberIndex ` insert d {d' \<in> set ds. groupIndex d' = groupIndex d}"
    unfolding update_fst_set tm(2) by simp
  ultimately show ?thesis unfolding entry_ok_def e by simp
qed

lemma decodeMnemonics_step_inv:
  assumes inv: "groups_inv ds st" and step: "decodeMnemonics_step p m st = Inr st'"
  shows "\<exists>d. decodeMnemonic p m = Inr d \<and> groups_inv (ds @ [d]) st'"
proof -
  from step obtain d where d: "decodeMnemonic p m = Inr d" and l1: "length (group_after st d) = 1"
    and g': "groups st' = AList.update (groupIndex d) (group_after st d) (groups st)"
    and t': "groupThresholds st' = set_add (groupThreshold d) (groupThresholds st)"
    by (rule step_Inr)
  have dg: "distinct (map fst (groups st))" and fs: "fst ` set (groups st) = groupIndex ` set ds"
    and en: "\<And>e. e \<in> set (groups st) \<Longrightarrow> entry_ok ds (fst e) (snd e)"
    and st: "set (groupThresholds st) = groupThreshold ` set ds" and dt: "distinct (groupThresholds st)"
    using inv unfolding groups_inv_def by simp_all
  have new: "entry_ok (ds @ [d]) (groupIndex d) (group_after st d)"
  proof (cases "map_of (groups st) (groupIndex d)")
    case None
    then have "groupIndex d \<notin> fst ` set (groups st)" by (simp add: map_of_eq_None_iff)
    then have "groupIndex d \<notin> groupIndex ` set ds" unfolding fs .
    then show ?thesis unfolding group_after_None [OF None] by (rule entry_ok_new)
  next
    case (Some grp0)
    then have "(groupIndex d, grp0) \<in> set (groups st)" by (rule map_of_SomeD)
    then have e0: "entry_ok ds (groupIndex d) grp0" using en by fastforce
    then obtain t mem where tm: "grp0 = [(t, mem)]" unfolding entry_ok_def by blast
    have ga: "memberThreshold d = t" "group_after st d = [(t, AList.update (memberIndex d) (share d) mem)]"
      using group_after_Some [OF Some [unfolded tm] l1] by simp_all
    have "entry_ok ds (groupIndex d) [(memberThreshold d, mem)]" using e0 unfolding tm ga(1) .
    then have "entry_ok (ds @ [d]) (groupIndex d)
           [(memberThreshold d, AList.update (memberIndex d) (share d) mem)]"
      by (rule entry_ok_update)
    then show ?thesis unfolding ga(2) ga(1) .
  qed
  have "distinct (map fst (groups st'))" unfolding g' using dg by (rule AList.distinct_update)
  moreover have "fst ` set (groups st') = groupIndex ` set (ds @ [d])"
    unfolding g' update_fst_set fs by simp
  moreover have "entry_ok (ds @ [d]) (fst e) (snd e)" if m: "e \<in> set (groups st')" for e
  proof -
    have "(fst e, snd e) \<in> set (AList.update (groupIndex d) (group_after st d) (groups st))"
      using m unfolding g' by simp
    then have c: "if fst e = groupIndex d then snd e = group_after st d else (fst e, snd e) \<in> set (groups st)"
      unfolding update_mem [OF dg] .
    show ?thesis
    proof (cases "fst e = groupIndex d")
      case True
      then have "snd e = group_after st d" using c by simp
      then show ?thesis using new True by simp
    next
      case False
      then have "e \<in> set (groups st)" using c by simp
      then have "entry_ok ds (fst e) (snd e)" by (rule en)
      then show ?thesis using False by (intro entry_ok_other) simp_all
    qed
  qed
  moreover have "set (groupThresholds st') = groupThreshold ` set (ds @ [d])"
    unfolding t' set_add_set st by simp
  moreover have "distinct (groupThresholds st')" unfolding t' using dt by (rule set_add_distinct)
  ultimately have "groups_inv (ds @ [d]) st'" unfolding groups_inv_def by blast
  with d show ?thesis by blast
qed


lemma decodeMnemonics_loop_inv:
  assumes "groups_inv ds st" "decodeMnemonics_loop p ms st = Inr st'"
  shows "\<exists>ds'. map (decodeMnemonic p) ms = map Inr ds' \<and> groups_inv (ds @ ds') st'"
  using assms
proof (induction ms arbitrary: ds st)
  case Nil
  then show ?case by simp
next
  case (Cons m ms)
  from Cons.prems(2) obtain st1 where s1: "decodeMnemonics_step p m st = Inr st1"
    and l: "decodeMnemonics_loop p ms st1 = Inr st'"
    by (cases "decodeMnemonics_step p m st") simp_all
  from decodeMnemonics_step_inv [OF Cons.prems(1) s1]
  obtain d where d: "decodeMnemonic p m = Inr d" and i1: "groups_inv (ds @ [d]) st1" by blast
  from Cons.IH [OF i1 l] obtain ds' where ds': "map (decodeMnemonic p) ms = map Inr ds'"
    and i2: "groups_inv ((ds @ [d]) @ ds') st'" by blast
  have "map (decodeMnemonic p) (m # ms) = map Inr (d # ds')" using d ds' by simp
  moreover have "groups_inv (ds @ d # ds') st'" using i2 by simp
  ultimately show ?case by blast
qed

lemma groups_inv_init:
  "groups_inv [] \<lparr> identifiers = [], extendableBackupFlags = [], iterationExponents = [],
                    groupThresholds = [], groupCounts = [], groups = [] \<rparr>"
  by (simp add: groups_inv_def)

lemma decodeMnemonics_Inr:
  assumes "decodeMnemonics p ms = Inr st"
  shows "\<exists>ds. map (decodeMnemonic p) ms = map Inr ds \<and> groups_inv ds st
              \<and> length (groupThresholds st) = 1"
proof -
  let ?st0 = "\<lparr> identifiers = [], extendableBackupFlags = [], iterationExponents = [],
                 groupThresholds = [], groupCounts = [], groups = [] \<rparr>"
  from assms obtain st1 where l: "decodeMnemonics_loop p ms ?st0 = Inr st1"
    by (cases "decodeMnemonics_loop p ms ?st0") (simp_all add: decodeMnemonics_def)
  have "st1 = st \<and> length (groupThresholds st) = 1"
    using assms unfolding decodeMnemonics_def l sum.case by (simp split: if_splits)
  then have l': "decodeMnemonics_loop p ms ?st0 = Inr st" and g: "length (groupThresholds st) = 1"
    using l by simp_all
  from decodeMnemonics_loop_inv [OF groups_inv_init l']
  obtain ds where "map (decodeMnemonic p) ms = map Inr ds" "groups_inv ([] @ ds) st" by blast
  then show ?thesis using g by auto
qed

lemma recover_groups_Inr:
  assumes "recover_groups p grps acc = Inr r" "(g, [(t, mem)]) \<in> set grps"
  shows "length mem = t"
  using assms
proof (induction grps arbitrary: acc)
  case Nil
  then show ?case by simp
next
  case (Cons e grps)
  obtain g0 members where e: "e = (g0, members)" by (cases e)
  from Cons.prems(1) obtain t0 shares0 rest0 where m: "members = (t0, shares0) # rest0"
    unfolding e by (cases members) auto
  from Cons.prems(1) have l0: "length shares0 = t0"
    unfolding e m by (simp split: if_splits)
  from Cons.prems(1) obtain rec0 where "recover_groups p grps (AList.update g0 rec0 acc) = Inr r"
    unfolding e m by (simp split: if_splits sum.splits)
  note ih = Cons.IH [OF this]
  from Cons.prems(2) have "(g, [(t, mem)]) = e \<or> (g, [(t, mem)]) \<in> set grps" by simp
  then show ?case
  proof
    assume "(g, [(t, mem)]) = e"
    then show ?thesis using l0 unfolding e m by simp
  next
    assume "(g, [(t, mem)]) \<in> set grps"
    then show ?thesis by (rule ih)
  qed
qed

lemma wf_crypto_toy: "wf_crypto toy_platform"
  by (simp add: wf_crypto_def toy_prims toy_pbkdf2_def toy_hmac_def)

lemma length_roundFunction:
  "wf_crypto p \<Longrightarrow> length (roundFunction p r pw e s x) = length x"
  by (simp add: roundFunction_def wf_crypto_def Let_def)

lemma crypt_rounds_Inr:
  assumes "wf_crypto p" "length IL = length IR"
  shows "\<exists>out. crypt_rounds p rs pw e s IL IR = Inr out \<and> length out = 2 * length IL"
  using assms(2)
proof (induction rs arbitrary: IL IR)
  case Nil
  then show ?case by simp
next
  case (Cons r rs)
  let ?f = "roundFunction p r pw e s IR"
  have lf: "length ?f = length IR" using assms(1) by (rule length_roundFunction)
  define t where "t = generateArray (length IL) (\<lambda>i. IL ! i XOR ?f ! i)"
  have x: "xor_arr IL ?f = Inr t" using Cons.prems lf by (simp add: xor_arr_def t_def)
  have "length IR = length t" using Cons.prems by (simp add: t_def generateArray_def)
  from Cons.IH [OF this] obtain out where "crypt_rounds p rs pw e s IR t = Inr out"
    "length out = 2 * length IR" by blast
  then show ?case using x Cons.prems by (simp add: Let_def)
qed

lemma crypt_Inr:
  assumes "wf_crypto p" "iexp \<le> 16" "even (length ms)"
  shows "\<exists>out. crypt p ms pass iexp ident flag enc = Inr out \<and> length out = length ms"
proof -
  have l: "length (js_slice 0 (length ms div 2) ms) = length (drop (length ms div 2) ms)"
    using assms(3) by (auto simp: js_slice_def elim!: evenE)
  have h: "2 * length (js_slice 0 (length ms div 2) ms) = length ms"
    using assms(3) by (auto simp: js_slice_def elim!: evenE)
  from crypt_rounds_Inr [OF assms(1) l]
  obtain out where "crypt_rounds p (if enc then generateArray ROUND_COUNT (\<lambda>i. i)
                                    else rev (generateArray ROUND_COUNT (\<lambda>i. i)))
                      (encodeHexString pass) iexp (getSalt ident flag)
                      (js_slice 0 (length ms div 2) ms) (drop (length ms div 2) ms) = Inr out"
    and "length out = 2 * length (js_slice 0 (length ms div 2) ms)" by blast
  then have "crypt p ms pass iexp ident flag enc = Inr out \<and> length out = length ms"
    using assms(2) unfolding h crypt_def Let_def by (simp add: MAX_ITERATION_EXP_def)
  then show ?thesis by blast
qed

lemma combineMnemonics_single:
  assumes "decodeMnemonic p m = Inr d" "groupThreshold d = 1" "memberThreshold d = 1"
  shows "combineMnemonics p [m] passphrase
         = crypt p (share d) passphrase (iterationExponent d)
             (map of_nat (intToIndices (identifier d) (ITERATION_EXP_WORDS_LENGTH p) 8))
             (extendableBackupFlag d) False"
  using assms
  by (simp add: combineMnemonics_def decodeMnemonics_def decodeMnemonics_step_def set_add_def
      recoverSecret_def Let_def)


lemma decode_example:
  "decodeMnemonic toy_platform
        (encodeMnemonic toy_platform [0x12, 0x34] 0 0 0 1 1 0 1
           [65, 66, 67, 68, 69, 70, 71, 72, 73, 74, 75, 76, 77, 78, 79, 80])
       = Inr \<lparr> identifier = 4660, extendableBackupFlag = 0, iterationExponent = 0,
               groupIndex = 0, groupThreshold = 1, groupCount = 1, memberIndex = 0,
               memberThreshold = 1,
               share = [65, 66, 67, 68, 69, 70, 71, 72, 73, 74, 75, 76, 77, 78, 79, 80] \<rparr>"
proof -
  have i: "decodeBigInt [0x12, 0x34] = 4660" by (simp add: decodeBigInt_foldl)
  have "decodeBigInt [0x12, 0x34] < 2 ^ 15" unfolding i by simp
  from decode_encode [OF wf_toy_platform this, of 0 0 0 0 1 1 1
      "[65, 66, 67, 68, 69, 70, 71, 72, 73, 74, 75, 76, 77, 78, 79, 80]"]
  show ?thesis by (simp add: i)
qed

lemma combine_example:
  "\<exists>secret. combineMnemonics toy_platform
      [encodeMnemonic toy_platform [0x12, 0x34] 0 0 0 1 1 0 1
           [65, 66, 67, 68, 69, 70, 71, 72, 73, 74, 75, 76, 77, 78, 79, 80]] [] = Inr secret"
proof -
  have "\<exists>out. crypt toy_platform [65, 66, 67, 68, 69, 70, 71, 72, 73, 74, 75, 76, 77, 78, 79, 80]
          [] 0 (map of_nat (intToIndices 4660 (ITERATION_EXP_WORDS_LENGTH toy_platform) 8)) 0 False = Inr out
         \<and> length out = length [65, 66, 67, 68, 69, 70, 71, 72, 73, 74, 75, 76, 77, 78, 79, 80 :: byte]"
    by (rule crypt_Inr [OF wf_crypto_toy]) simp_all
  moreover have "combineMnemonics toy_platform
      [encodeMnemonic toy_platform [0x12, 0x34] 0 0 0 1 1 0 1
           [65, 66, 67, 68, 69, 70, 71, 72, 73, 74, 75, 76, 77, 78, 79, 80]] []
    = crypt toy_platform [65, 66, 67, 68, 69, 70, 71, 72, 73, 74, 75, 76, 77, 78, 79, 80]
          [] 0 (map of_nat (intToIndices 4660 (ITERATION_EXP_WORDS_LENGTH toy_platform) 8)) 0 False"
    using combineMnemonics_single [OF decode_example, of "[]"] by simp
  ultimately show ?thesis by (elim exE conjE) (rule exI, simp only:)
qed

text \<open>
  C6: whenever \<open>combineMnemonics\<close> returns a secret, every mnemonic decoded, the number of
  distinct group indices among the decoded mnemonics is the group threshold that each of
  them carries, and for each of them the number of distinct member indices among the
  mnemonics of its group is the member threshold it carries. So \<open>combineMnemonics\<close> returns
  an error whenever fewer or more distinct groups than the group threshold are presented,
  and whenever some presented group has fewer or more distinct members than its member
  threshold.
\<close>

theorem combineMnemonics_exact_counts:
  assumes "combineMnemonics p ms passphrase = Inr secret"
  shows "\<exists>ds. map (decodeMnemonic p) ms = map Inr ds \<and> ds \<noteq> []
           \<and> (\<forall>d \<in> set ds.
                 card (groupIndex ` set ds) = groupThreshold d
                 \<and> card (memberIndex ` {d' \<in> set ds. groupIndex d' = groupIndex d}) = memberThreshold d)"
proof -
  from assms have ne: "ms \<noteq> []" by (auto simp: combineMnemonics_def)
  from assms obtain st where st: "decodeMnemonics p ms = Inr st"
    using ne by (cases "decodeMnemonics p ms") (simp_all add: combineMnemonics_def)
  have len: "length (groups st) = hd (groupThresholds st)"
    using assms ne unfolding combineMnemonics_def st sum.case Let_def
    by (simp split: if_splits)
  obtain allShares where rg: "recover_groups p (groups st) [] = Inr allShares"
    using assms ne unfolding combineMnemonics_def st sum.case Let_def
    by (cases "recover_groups p (groups st) []") (simp_all split: if_splits)
  from decodeMnemonics_Inr [OF st] obtain ds where ds: "map (decodeMnemonic p) ms = map Inr ds"
    and inv: "groups_inv ds st" and l1: "length (groupThresholds st) = 1" by blast
  have dg: "distinct (map fst (groups st))" and fs: "fst ` set (groups st) = groupIndex ` set ds"
    and en: "\<And>e. e \<in> set (groups st) \<Longrightarrow> entry_ok ds (fst e) (snd e)"
    and gt: "set (groupThresholds st) = groupThreshold ` set ds"
    using inv unfolding groups_inv_def by simp_all
  have "length ds = length ms" using ds by (metis length_map)
  then have dne: "ds \<noteq> []" using ne by auto
  obtain T where T: "groupThresholds st = [T]"
    using l1 by (cases "groupThresholds st") simp_all
  have cg: "card (groupIndex ` set ds) = T"
  proof -
    have "card (fst ` set (groups st)) = length (groups st)"
      using distinct_card [OF dg] by simp
    then show ?thesis using len unfolding fs T by simp
  qed
  have "card (groupIndex ` set ds) = groupThreshold d
        \<and> card (memberIndex ` {d' \<in> set ds. groupIndex d' = groupIndex d}) = memberThreshold d"
    if d: "d \<in> set ds" for d
  proof -
    have "groupThreshold d \<in> set (groupThresholds st)" unfolding gt using d by (rule imageI)
    then have a: "groupThreshold d = T" unfolding T by simp
    have "groupIndex d \<in> fst ` set (groups st)" unfolding fs using d by (rule imageI)
    then obtain grp where m: "(groupIndex d, grp) \<in> set (groups st)" by force
    from en [OF m] have "entry_ok ds (groupIndex d) grp" by simp
    then obtain t mem where tm: "grp = [(t, mem)]" "distinct (map fst mem)"
        "fst ` set mem = memberIndex ` {d' \<in> set ds. groupIndex d' = groupIndex d}"
        "\<forall>d' \<in> set ds. groupIndex d' = groupIndex d \<longrightarrow> memberThreshold d' = t"
      unfolding entry_ok_def by blast
    have t: "memberThreshold d = t" using tm(4) d by simp
    have "length mem = t" using rg m unfolding tm(1) by (rule recover_groups_Inr)
    moreover have "card (fst ` set mem) = length mem" using distinct_card [OF tm(2)] by simp
    ultimately have "card (memberIndex ` {d' \<in> set ds. groupIndex d' = groupIndex d}) = memberThreshold d"
      unfolding tm(3) t by simp
    then show ?thesis using cg a by simp
  qed
  then show ?thesis using ds dne by blast
qed

theorem combineMnemonics_exact_counts_witness:
  "\<exists>ds. map (decodeMnemonic toy_platform)
            [encodeMnemonic toy_platform [0x12, 0x34] 0 0 0 1 1 0 1
               [65, 66, 67, 68, 69, 70, 71, 72, 73, 74, 75, 76, 77, 78, 79, 80]] = map Inr ds
        \<and> card (groupIndex ` set ds) = groupThreshold (hd ds)
        \<and> card (memberIndex ` {d' \<in> set ds. groupIndex d' = groupIndex (hd ds)}) = memberThreshold (hd ds)"
proof -
  from combine_example obtain secret where "combineMnemonics toy_platform
      [encodeMnemonic toy_platform [0x12, 0x34] 0 0 0 1 1 0 1
           [65, 66, 67, 68, 69, 70, 71, 72, 73, 74, 75, 76, 77, 78, 79, 80]] [] = Inr secret" ..
  from combineMnemonics_exact_counts [OF this] obtain ds where
    a: "map (decodeMnemonic toy_platform)
            [encodeMnemonic toy_platform [0x12, 0x34] 0 0 0 1 1 0 1
               [65, 66, 67, 68, 69, 70, 71, 72, 73, 74, 75, 76, 77, 78, 79, 80]] = map Inr ds"
    and b: "ds \<noteq> []"
    and c: "\<forall>d \<in> set ds.
                 card (groupIndex ` set ds) = groupThreshold d
                 \<and> card (memberIndex ` {d' \<in> set ds. groupIndex d' = groupIndex d}) = memberThreshold d"
    by blast
  have "hd ds \<in> set ds" using b by simp
  with c have "card (groupIndex ` set ds) = groupThreshold (hd ds)
        \<and> card (memberIndex ` {d' \<in> set ds. groupIndex d' = groupIndex (hd ds)}) = memberThreshold (hd ds)"
    by blast
  with a show ?thesis by blast
qed

end
